theory Spec2Isabelle
  imports Main
begin

section \<open>The Timer class of src/Timer.ts\<close>

text \<open>
  A Timer instance is a JavaScript object; the three module-level collections
  (\<open>TIMERS\<close>, \<open>UUID_MAP\<close>, \<open>PROMISE_RESOLVE_FUNCTION_MAP\<close>) are keyed by object identity.
  An instance is represented by a reference (a natural number, handed out by the
  constructor), and the fields of all instances live in the world as maps from references.

  The host's timer facility (\<open>setTimeout\<close>, \<open>setInterval\<close>, \<open>clearTimeout\<close>,
  \<open>clearInterval\<close>) is the table \<open>host_timers\<close> of the currently armed native timers,
  with the closure each one runs. A promise is a number; \<open>resolved\<close> says which promises
  have had their resolve function called. The user's callback is opaque: the world counts
  how often each instance's callback has been invoked, and the callback is taken not to
  call back into the Timer API.
\<close>

type_synonym timer_ref = nat
type_synonym uuid = nat
type_synonym promise = nat

datatype error = TypeError

datatype native_kind = Timeout | Interval

record world =
  TIMERS :: "timer_ref list"
  UUID_MAP :: "timer_ref \<rightharpoonup> uuid"
  PROMISE_RESOLVE_FUNCTION_MAP :: "timer_ref \<rightharpoonup> promise"
  isRunning :: "timer_ref \<Rightarrow> bool"
  repeat :: "timer_ref \<Rightarrow> bool"
  duration :: "timer_ref \<Rightarrow> nat"
  callback_calls :: "timer_ref \<Rightarrow> nat"
  instances :: nat
  host_timers :: "uuid \<rightharpoonup> native_kind \<times> timer_ref"
  next_uuid :: nat
  resolved :: "promise \<Rightarrow> bool"
  next_promise :: nat

definition initial :: world where
  "initial = \<lparr> TIMERS = [], UUID_MAP = Map.empty, PROMISE_RESOLVE_FUNCTION_MAP = Map.empty,
     isRunning = (\<lambda>_. False), repeat = (\<lambda>_. False), duration = (\<lambda>_. 0),
     callback_calls = (\<lambda>_. 0), instances = 0, host_timers = Map.empty, next_uuid = 1,
     resolved = (\<lambda>_. False), next_promise = 0 \<rparr>"

subsection \<open>The host's native timers\<close>

text \<open>\<open>setTimeout\<close> and \<open>setInterval\<close> arm a native timer and return its fresh handle.\<close>

definition setTimeout :: "timer_ref \<Rightarrow> world \<Rightarrow> uuid \<times> world" where
  "setTimeout t s = (next_uuid s,
     s\<lparr>host_timers := (host_timers s)(next_uuid s \<mapsto> (Timeout, t)),
       next_uuid := Suc (next_uuid s)\<rparr>)"

definition setInterval :: "timer_ref \<Rightarrow> world \<Rightarrow> uuid \<times> world" where
  "setInterval t s = (next_uuid s,
     s\<lparr>host_timers := (host_timers s)(next_uuid s \<mapsto> (Interval, t)),
       next_uuid := Suc (next_uuid s)\<rparr>)"

text \<open>Disarming a handle that is not armed does nothing.\<close>

definition clearTimeout :: "uuid \<Rightarrow> world \<Rightarrow> world" where
  "clearTimeout h s = s\<lparr>host_timers := (host_timers s)(h := None)\<rparr>"

definition clearInterval :: "uuid \<Rightarrow> world \<Rightarrow> world" where
  "clearInterval h s = s\<lparr>host_timers := (host_timers s)(h := None)\<rparr>"

subsection \<open>Instance methods\<close>

definition hasTimer :: "timer_ref \<Rightarrow> world \<Rightarrow> bool" where
  "hasTimer t s = (UUID_MAP s t \<noteq> None)"

definition callback :: "timer_ref \<Rightarrow> world \<Rightarrow> world" where
  "callback t s = s\<lparr>callback_calls := (callback_calls s)(t := Suc (callback_calls s t))\<rparr>"

definition callPromiseResolveFunction :: "timer_ref \<Rightarrow> world \<Rightarrow> world" where
  "callPromiseResolveFunction t s =
     (case PROMISE_RESOLVE_FUNCTION_MAP s t of
        None \<Rightarrow> s
      | Some p \<Rightarrow> s\<lparr>resolved := (resolved s)(p := True),
                   PROMISE_RESOLVE_FUNCTION_MAP := (PROMISE_RESOLVE_FUNCTION_MAP s)(t := None)\<rparr>)"

definition startInterval :: "timer_ref \<Rightarrow> world \<Rightarrow> world" where
  "startInterval t s =
     (case setInterval t s of (h, s') \<Rightarrow> s'\<lparr>UUID_MAP := (UUID_MAP s')(t \<mapsto> h)\<rparr>)"

definition startTimeout :: "timer_ref \<Rightarrow> world \<Rightarrow> world" where
  "startTimeout t s =
     (case setTimeout t s of (h, s') \<Rightarrow> s'\<lparr>UUID_MAP := (UUID_MAP s')(t \<mapsto> h)\<rparr>)"

text \<open>
  A method that can throw returns the error or its value, together with the world as it
  is at that moment: what was mutated before a \<open>throw\<close> stays mutated.
\<close>

definition stopInterval :: "timer_ref \<Rightarrow> world \<Rightarrow> (error + unit) \<times> world" where
  "stopInterval t s =
     (case UUID_MAP s t of
        None \<Rightarrow> (Inl TypeError, s)
      | Some h \<Rightarrow>
          (let s1 = clearInterval h s;
               s2 = s1\<lparr>UUID_MAP := (UUID_MAP s1)(t := None)\<rparr>
           in (Inr (), callPromiseResolveFunction t s2)))"

definition stopTimeout :: "timer_ref \<Rightarrow> world \<Rightarrow> (error + unit) \<times> world" where
  "stopTimeout t s =
     (case UUID_MAP s t of
        None \<Rightarrow> (Inl TypeError, s)
      | Some h \<Rightarrow>
          (let s1 = clearTimeout h s
           in (Inr (), s1\<lparr>UUID_MAP := (UUID_MAP s1)(t := None)\<rparr>)))"

definition stop :: "timer_ref \<Rightarrow> world \<Rightarrow> (error + unit) \<times> world" where
  "stop t s =
     (if \<not> hasTimer t s then (Inl TypeError, s)
      else (let s1 = s\<lparr>isRunning := (isRunning s)(t := False)\<rparr>
            in if repeat s1 t then stopInterval t s1 else stopTimeout t s1))"

text \<open>
  \<open>run\<close> is an \<open>async\<close> method: an error thrown in its body would reject the returned
  promise (\<open>Inl\<close>). The value is the promise created by \<open>new Promise\<close>, whose resolve
  function is either stored or called at once.
\<close>

definition run :: "timer_ref \<Rightarrow> world \<Rightarrow> (error + promise) \<times> world" where
  "run t s =
     (case (if hasTimer t s then stop t s else (Inr (), s)) of
        (Inl e, s1) \<Rightarrow> (Inl e, s1)
      | (Inr _, s1) \<Rightarrow>
          (let s2 = s1\<lparr>isRunning := (isRunning s1)(t := True)\<rparr>;
               p = next_promise s2;
               s3 = s2\<lparr>next_promise := Suc p\<rparr>;
               s4 = (if repeat s3 t then startInterval t s3 else startTimeout t s3);
               s5 = (if PROMISE_RESOLVE_FUNCTION_MAP s4 t = None
                     then s4\<lparr>PROMISE_RESOLVE_FUNCTION_MAP :=
                               (PROMISE_RESOLVE_FUNCTION_MAP s4)(t \<mapsto> p)\<rparr>
                     else s4\<lparr>resolved := (resolved s4)(p := True)\<rparr>)
           in (Inr p, s5)))"

subsection \<open>Static methods\<close>

definition addTimer :: "timer_ref \<Rightarrow> world \<Rightarrow> world" where
  "addTimer t s = (if t \<in> set (TIMERS s) then s else s\<lparr>TIMERS := TIMERS s @ [t]\<rparr>)"

definition stopTimer :: "timer_ref \<Rightarrow> world \<Rightarrow> (error + unit) \<times> world" where
  "stopTimer t s = (if isRunning s t then stop t s else (Inr (), s))"

text \<open>\<open>timer.run().then()\<close> drops the promise; a rejection is not thrown to the caller.\<close>

definition runTimer :: "timer_ref \<Rightarrow> world \<Rightarrow> (error + unit) \<times> world" where
  "runTimer t s = (if \<not> isRunning s t then (Inr (), snd (run t s)) else (Inr (), s))"

definition clearTimer :: "timer_ref \<Rightarrow> world \<Rightarrow> (error + unit) \<times> world" where
  "clearTimer t s =
     (case stopTimer t s of
        (Inl e, s1) \<Rightarrow> (Inl e, s1)
      | (Inr _, s1) \<Rightarrow>
          (let s2 = s1\<lparr>TIMERS := removeAll t (TIMERS s1)\<rparr>
           in (Inr (), s2\<lparr>UUID_MAP := (UUID_MAP s2)(t := None)\<rparr>)))"

definition clear :: "timer_ref \<Rightarrow> world \<Rightarrow> (error + unit) \<times> world" where
  "clear t s = clearTimer t s"

text \<open>
  \<open>TIMERS.forEach\<close> visits the members in insertion order and stops at the first throw.
  No function passed to it here adds a member or deletes another than the one being
  visited, so it visits exactly the members present when it starts.
\<close>

fun forEach :: "(timer_ref \<Rightarrow> world \<Rightarrow> (error + unit) \<times> world) \<Rightarrow> timer_ref list \<Rightarrow> world
    \<Rightarrow> (error + unit) \<times> world" where
  "forEach f [] s = (Inr (), s)"
| "forEach f (t # ts) s =
     (case f t s of (Inl e, s') \<Rightarrow> (Inl e, s') | (Inr _, s') \<Rightarrow> forEach f ts s')"

definition stopTimers :: "world \<Rightarrow> (error + unit) \<times> world" where
  "stopTimers s = forEach stopTimer (TIMERS s) s"

definition runTimers :: "world \<Rightarrow> (error + unit) \<times> world" where
  "runTimers s = forEach runTimer (TIMERS s) s"

definition clearTimers :: "world \<Rightarrow> (error + unit) \<times> world" where
  "clearTimers s = forEach clearTimer (TIMERS s) s"

text \<open>The constructor: a new object with \<open>isRunning = false\<close>, registered in \<open>TIMERS\<close>.\<close>

definition new_Timer :: "nat \<Rightarrow> bool \<Rightarrow> world \<Rightarrow> timer_ref \<times> world" where
  "new_Timer d r s =
     (let t = instances s;
          s1 = s\<lparr>instances := Suc t,
                 isRunning := (isRunning s)(t := False),
                 repeat := (repeat s)(t := r),
                 duration := (duration s)(t := d),
                 callback_calls := (callback_calls s)(t := 0)\<rparr>
      in (t, addTimer t s1))"

subsection \<open>A native timer fires\<close>

text \<open>
  The closure given to \<open>setInterval\<close> calls the callback; the one given to
  \<open>setTimeout\<close> calls it and then \<open>callPromiseResolveFunction\<close>. A one-shot native timer
  is no longer armed once it has fired; a handle that is not armed cannot fire.
\<close>

definition fire :: "uuid \<Rightarrow> world \<Rightarrow> world" where
  "fire h s =
     (case host_timers s h of
        None \<Rightarrow> s
      | Some (Interval, t) \<Rightarrow> callback t s
      | Some (Timeout, t) \<Rightarrow>
          callPromiseResolveFunction t
            (callback t (s\<lparr>host_timers := (host_timers s)(h := None)\<rparr>)))"

subsection \<open>Histories\<close>

text \<open>
  What a program using the class can do, one call or one firing at a time. A call that
  throws leaves the world as it is at the throw, and the program goes on.
\<close>

datatype event =
    New nat bool
  | Run timer_ref
  | Stop timer_ref
  | Clear timer_ref
  | RunTimer timer_ref
  | RunTimers
  | StopTimers
  | ClearTimers
  | Fire uuid

fun step :: "event \<Rightarrow> world \<Rightarrow> world" where
  "step (New d r) s = snd (new_Timer d r s)"
| "step (Run t) s = snd (run t s)"
| "step (Stop t) s = snd (stop t s)"
| "step (Clear t) s = snd (clear t s)"
| "step (RunTimer t) s = snd (runTimer t s)"
| "step RunTimers s = snd (runTimers s)"
| "step StopTimers s = snd (stopTimers s)"
| "step ClearTimers s = snd (clearTimers s)"
| "step (Fire h) s = fire h s"

text \<open>A method can only be called on an object that has been constructed.\<close>

fun possible :: "event \<Rightarrow> world \<Rightarrow> bool" where
  "possible (Run t) s = (t < instances s)"
| "possible (Stop t) s = (t < instances s)"
| "possible (Clear t) s = (t < instances s)"
| "possible (RunTimer t) s = (t < instances s)"
| "possible _ s = True"

fun after :: "event list \<Rightarrow> world \<Rightarrow> world" where
  "after [] s = s"
| "after (e # es) s = after es (step e s)"

fun history :: "event list \<Rightarrow> world \<Rightarrow> bool" where
  "history [] s = True"
| "history (e # es) s = (possible e s \<and> history es (step e s))"

subsection \<open>What holds in every world a history can reach\<close>

text \<open>
  The registry is a set of constructed objects; \<open>isRunning\<close> agrees with \<open>hasTimer\<close>; an
  armed native timer is the one recorded for its instance and of the instance's kind, and
  its instance has a pending resolve function;
  handles and promises are fresh when handed out; a pending resolve function belongs to
  an unresolved promise; a repeating instance has a pending resolve function exactly while
  it has a handle.
\<close>

definition registry_ok :: "world \<Rightarrow> bool" where
  "registry_ok s \<longleftrightarrow> distinct (TIMERS s) \<and> (\<forall>t \<in> set (TIMERS s). t < instances s)"

definition running_ok :: "world \<Rightarrow> bool" where
  "running_ok s \<longleftrightarrow> (\<forall>t. isRunning s t \<longleftrightarrow> UUID_MAP s t \<noteq> None)"

definition armed_ok :: "world \<Rightarrow> bool" where
  "armed_ok s \<longleftrightarrow> (\<forall>h k t. host_timers s h = Some (k, t) \<longrightarrow>
        UUID_MAP s t = Some h \<and> (k = Interval \<longleftrightarrow> repeat s t))"

definition uuid_ok :: "world \<Rightarrow> bool" where
  "uuid_ok s \<longleftrightarrow>
     (\<forall>t h. UUID_MAP s t = Some h \<longrightarrow> h < next_uuid s \<and> t < instances s) \<and>
     (\<forall>t t' h. UUID_MAP s t = Some h \<and> UUID_MAP s t' = Some h \<longrightarrow> t = t')"

definition promise_ok :: "world \<Rightarrow> bool" where
  "promise_ok s \<longleftrightarrow>
     (\<forall>t p. PROMISE_RESOLVE_FUNCTION_MAP s t = Some p \<longrightarrow>
        p < next_promise s \<and> \<not> resolved s p \<and> t < instances s) \<and>
     (\<forall>t t' p. PROMISE_RESOLVE_FUNCTION_MAP s t = Some p \<and>
        PROMISE_RESOLVE_FUNCTION_MAP s t' = Some p \<longrightarrow> t = t') \<and>
     (\<forall>p. resolved s p \<longrightarrow> p < next_promise s)"

definition interval_ok :: "world \<Rightarrow> bool" where
  "interval_ok s \<longleftrightarrow> (\<forall>t. repeat s t \<longrightarrow>
        (PROMISE_RESOLVE_FUNCTION_MAP s t \<noteq> None \<longleftrightarrow> UUID_MAP s t \<noteq> None))"

definition pending_ok :: "world \<Rightarrow> bool" where
  "pending_ok s \<longleftrightarrow> (\<forall>h k t. host_timers s h = Some (k, t) \<longrightarrow>
        PROMISE_RESOLVE_FUNCTION_MAP s t \<noteq> None)"

definition inv :: "world \<Rightarrow> bool" where
  "inv s \<longleftrightarrow> registry_ok s \<and> running_ok s \<and> armed_ok s \<and> uuid_ok s \<and> promise_ok s
     \<and> interval_ok s \<and> pending_ok s"

subsection \<open>An instance that an operation leaves alone\<close>

text \<open>
  What can be observed of one instance: its fields, its entries in the three collections,
  the native timers armed for it, and whether its pending completion is resolved.
\<close>

definition untouched :: "timer_ref \<Rightarrow> world \<Rightarrow> world \<Rightarrow> bool" where
  "untouched t s s' \<longleftrightarrow>
     isRunning s' t = isRunning s t \<and>
     UUID_MAP s' t = UUID_MAP s t \<and>
     PROMISE_RESOLVE_FUNCTION_MAP s' t = PROMISE_RESOLVE_FUNCTION_MAP s t \<and>
     callback_calls s' t = callback_calls s t \<and>
     repeat s' t = repeat s t \<and>
     duration s' t = duration s t \<and>
     (t \<in> set (TIMERS s')) = (t \<in> set (TIMERS s)) \<and>
     (\<forall>h k. (host_timers s' h = Some (k, t)) = (host_timers s h = Some (k, t))) \<and>
     (\<forall>p. PROMISE_RESOLVE_FUNCTION_MAP s t = Some p \<longrightarrow> resolved s' p = resolved s p)"

subsection \<open>A one-shot instance waiting for its completion\<close>

text \<open>
  The one-shot instance \<open>t\<close> has the pending completion \<open>p\<close>, and its callback has been
  invoked \<open>c\<close> times.
\<close>

definition waiting :: "timer_ref \<Rightarrow> promise \<Rightarrow> nat \<Rightarrow> world \<Rightarrow> bool" where
  "waiting t p c s \<longleftrightarrow>
     inv s \<and> t < instances s \<and> \<not> repeat s t \<and>
     PROMISE_RESOLVE_FUNCTION_MAP s t = Some p \<and> callback_calls s t = c"

subsection \<open>A cleared instance with a pending completion\<close>

text \<open>
  The instance \<open>t\<close> is out of the registry and has no handle, and \<open>p\<close> is its pending
  completion.
\<close>

definition cleared :: "timer_ref \<Rightarrow> promise \<Rightarrow> world \<Rightarrow> bool" where
  "cleared t p s \<longleftrightarrow>
     inv s \<and> t < instances s \<and> PROMISE_RESOLVE_FUNCTION_MAP s t = Some p \<and>
     UUID_MAP s t = None \<and> t \<notin> set (TIMERS s)"

section \<open>Effects of the methods, field by field\<close>

lemmas host_defs = setTimeout_def setInterval_def clearTimeout_def clearInterval_def
lemmas method_defs = hasTimer_def callback_def callPromiseResolveFunction_def startInterval_def
  startTimeout_def stopInterval_def stopTimeout_def stop_def run_def addTimer_def stopTimer_def
  runTimer_def clearTimer_def clear_def stopTimers_def runTimers_def clearTimers_def new_Timer_def
  fire_def

lemma inv_initial: "inv initial"
  by (simp add: inv_def initial_def registry_ok_def running_ok_def armed_ok_def uuid_ok_def
      promise_ok_def interval_ok_def pending_ok_def)

lemma armed_recorded:
  "armed_ok s \<Longrightarrow> host_timers s h = Some (k, t) \<Longrightarrow> UUID_MAP s t = Some h"
  unfolding armed_ok_def by blast

lemma armed_unique:
  assumes "armed_ok s" and "host_timers s h = Some (k, t)" and "host_timers s h' = Some (k', t)"
  shows "h' = h"
proof -
  have "UUID_MAP s t = Some h" and "UUID_MAP s t = Some h'"
    using assms by (blast intro: armed_recorded)+
  then show ?thesis by simp
qed

lemma armed_kind:
  "armed_ok s \<Longrightarrow> host_timers s h = Some (k, t) \<Longrightarrow> (k = Interval) = repeat s t"
  unfolding armed_ok_def by blast

lemma armed_pending:
  "pending_ok s \<Longrightarrow> host_timers s h = Some (k, t)
    \<Longrightarrow> \<exists>p. PROMISE_RESOLVE_FUNCTION_MAP s t = Some p"
  unfolding pending_ok_def by blast

lemma pending_unresolved:
  "promise_ok s \<Longrightarrow> PROMISE_RESOLVE_FUNCTION_MAP s t = Some p \<Longrightarrow> \<not> resolved s p"
  unfolding promise_ok_def by blast

lemma pending_old:
  "promise_ok s \<Longrightarrow> PROMISE_RESOLVE_FUNCTION_MAP s t = Some p \<Longrightarrow> p < next_promise s"
  unfolding promise_ok_def by blast

lemma pending_inj:
  "promise_ok s \<Longrightarrow> PROMISE_RESOLVE_FUNCTION_MAP s t = Some p
    \<Longrightarrow> PROMISE_RESOLVE_FUNCTION_MAP s t' = Some p \<Longrightarrow> t' = t"
  unfolding promise_ok_def by blast

lemma resolved_old: "promise_ok s \<Longrightarrow> resolved s p \<Longrightarrow> p < next_promise s"
  unfolding promise_ok_def by blast

lemma handle_old: "uuid_ok s \<Longrightarrow> UUID_MAP s t = Some h \<Longrightarrow> h < next_uuid s"
  unfolding uuid_ok_def by blast

lemma handle_inj:
  "uuid_ok s \<Longrightarrow> UUID_MAP s t = Some h \<Longrightarrow> UUID_MAP s t' = Some h \<Longrightarrow> t' = t"
  unfolding uuid_ok_def by blast

lemma running_recorded: "running_ok s \<Longrightarrow> isRunning s t = (UUID_MAP s t \<noteq> None)"
  unfolding running_ok_def by blast

lemma interval_pending:
  "interval_ok s \<Longrightarrow> repeat s t
    \<Longrightarrow> (PROMISE_RESOLVE_FUNCTION_MAP s t \<noteq> None) = (UUID_MAP s t \<noteq> None)"
  unfolding interval_ok_def by blast

lemma stop_throws: "UUID_MAP s t = None \<Longrightarrow> stop t s = (Inl TypeError, s)"
  by (simp add: method_defs)

lemma stop_fields:
  assumes "UUID_MAP s t = Some h"
  shows "fst (stop t s) = Inr ()"
    and "isRunning (snd (stop t s)) = (isRunning s)(t := False)"
    and "UUID_MAP (snd (stop t s)) = (UUID_MAP s)(t := None)"
    and "host_timers (snd (stop t s)) = (host_timers s)(h := None)"
    and "PROMISE_RESOLVE_FUNCTION_MAP (snd (stop t s)) =
          (if repeat s t then (PROMISE_RESOLVE_FUNCTION_MAP s)(t := None)
           else PROMISE_RESOLVE_FUNCTION_MAP s)"
    and "resolved (snd (stop t s)) =
          (case PROMISE_RESOLVE_FUNCTION_MAP s t of
             Some p \<Rightarrow> if repeat s t then (resolved s)(p := True) else resolved s
           | None \<Rightarrow> resolved s)"
    and "TIMERS (snd (stop t s)) = TIMERS s"
    and "repeat (snd (stop t s)) = repeat s"
    and "duration (snd (stop t s)) = duration s"
    and "callback_calls (snd (stop t s)) = callback_calls s"
    and "instances (snd (stop t s)) = instances s"
    and "next_uuid (snd (stop t s)) = next_uuid s"
    and "next_promise (snd (stop t s)) = next_promise s"
  using assms by (auto simp add: method_defs host_defs Let_def split: option.splits)

lemma inv_stop:
  assumes "inv s" shows "inv (snd (stop t s))"
proof (cases "UUID_MAP s t")
  case None
  then show ?thesis using assms by (simp add: stop_throws)
next
  case (Some h)
  note f = stop_fields [OF Some]
  have "registry_ok (snd (stop t s))"
    using assms by (simp add: inv_def registry_ok_def f)
  moreover have "running_ok (snd (stop t s))"
    using assms by (simp add: inv_def running_ok_def f)
  moreover have "armed_ok (snd (stop t s))"
    using assms Some by (auto simp add: inv_def armed_ok_def f)
  moreover have "uuid_ok (snd (stop t s))"
    using assms Some by (auto simp add: inv_def uuid_ok_def f)
  moreover have "promise_ok (snd (stop t s))"
    using assms Some by (auto simp add: inv_def promise_ok_def f split: option.splits)
  moreover have "interval_ok (snd (stop t s))"
    using assms Some by (auto simp add: inv_def interval_ok_def f)
  moreover have "pending_ok (snd (stop t s))"
    using assms Some
    by (auto simp add: inv_def pending_ok_def armed_ok_def f split: if_splits)
  ultimately show ?thesis by (simp add: inv_def)
qed

lemma stop_returns: "UUID_MAP s t = Some h \<Longrightarrow> stop t s = (Inr (), snd (stop t s))"
  using stop_fields(1) [of s t h] by (simp add: prod_eq_iff)

lemma run_restart:
  assumes "UUID_MAP s t = Some h"
  shows "run t s = run t (snd (stop t s))"
proof -
  have "UUID_MAP (snd (stop t s)) t = None"
    using assms by (simp add: stop_fields)
  then have "run t (snd (stop t s)) =
      (case (Inr (), snd (stop t s)) of
         (Inl e, s1) \<Rightarrow> (Inl e, s1)
       | (Inr _, s1) \<Rightarrow>
          (let s2 = s1\<lparr>isRunning := (isRunning s1)(t := True)\<rparr>;
               p = next_promise s2;
               s3 = s2\<lparr>next_promise := Suc p\<rparr>;
               s4 = (if repeat s3 t then startInterval t s3 else startTimeout t s3);
               s5 = (if PROMISE_RESOLVE_FUNCTION_MAP s4 t = None
                     then s4\<lparr>PROMISE_RESOLVE_FUNCTION_MAP :=
                               (PROMISE_RESOLVE_FUNCTION_MAP s4)(t \<mapsto> p)\<rparr>
                     else s4\<lparr>resolved := (resolved s4)(p := True)\<rparr>)
           in (Inr p, s5)))"
    unfolding run_def hasTimer_def by simp
  moreover have "run t s =
      (case stop t s of
         (Inl e, s1) \<Rightarrow> (Inl e, s1)
       | (Inr _, s1) \<Rightarrow>
          (let s2 = s1\<lparr>isRunning := (isRunning s1)(t := True)\<rparr>;
               p = next_promise s2;
               s3 = s2\<lparr>next_promise := Suc p\<rparr>;
               s4 = (if repeat s3 t then startInterval t s3 else startTimeout t s3);
               s5 = (if PROMISE_RESOLVE_FUNCTION_MAP s4 t = None
                     then s4\<lparr>PROMISE_RESOLVE_FUNCTION_MAP :=
                               (PROMISE_RESOLVE_FUNCTION_MAP s4)(t \<mapsto> p)\<rparr>
                     else s4\<lparr>resolved := (resolved s4)(p := True)\<rparr>)
           in (Inr p, s5)))"
    using assms unfolding run_def hasTimer_def by simp
  ultimately show ?thesis
    using stop_returns [OF assms] by simp
qed

lemma run_pre:
  "run t s = run t (if UUID_MAP s t = None then s else snd (stop t s))"
  by (cases "UUID_MAP s t") (simp_all add: run_restart)

lemma run_fields:
  assumes "UUID_MAP s t = None"
  shows "fst (run t s) = Inr (next_promise s)"
    and "isRunning (snd (run t s)) = (isRunning s)(t := True)"
    and "UUID_MAP (snd (run t s)) = (UUID_MAP s)(t \<mapsto> next_uuid s)"
    and "host_timers (snd (run t s)) =
          (host_timers s)(next_uuid s \<mapsto> (if repeat s t then Interval else Timeout, t))"
    and "PROMISE_RESOLVE_FUNCTION_MAP (snd (run t s)) =
          (case PROMISE_RESOLVE_FUNCTION_MAP s t of
             None \<Rightarrow> (PROMISE_RESOLVE_FUNCTION_MAP s)(t \<mapsto> next_promise s)
           | Some p \<Rightarrow> PROMISE_RESOLVE_FUNCTION_MAP s)"
    and "resolved (snd (run t s)) =
          (case PROMISE_RESOLVE_FUNCTION_MAP s t of
             None \<Rightarrow> resolved s
           | Some p \<Rightarrow> (resolved s)(next_promise s := True))"
    and "TIMERS (snd (run t s)) = TIMERS s"
    and "repeat (snd (run t s)) = repeat s"
    and "duration (snd (run t s)) = duration s"
    and "callback_calls (snd (run t s)) = callback_calls s"
    and "instances (snd (run t s)) = instances s"
    and "next_uuid (snd (run t s)) = Suc (next_uuid s)"
    and "next_promise (snd (run t s)) = Suc (next_promise s)"
  using assms by (auto simp add: method_defs host_defs Let_def split: option.splits)

lemma inv_run_idle:
  assumes "inv s" and "t < instances s" and idle: "UUID_MAP s t = None"
  shows "inv (snd (run t s))"
proof -
  note f = run_fields [OF idle]
  have "registry_ok (snd (run t s))"
    using assms by (simp add: inv_def registry_ok_def f)
  moreover have "running_ok (snd (run t s))"
    using assms by (simp add: inv_def running_ok_def f)
  moreover have "armed_ok (snd (run t s))"
    using assms by (auto simp add: inv_def armed_ok_def uuid_ok_def f)
  moreover have "uuid_ok (snd (run t s))"
    using assms by (auto simp add: inv_def uuid_ok_def f less_Suc_eq)
  moreover have "promise_ok (snd (run t s))"
    using assms by (auto simp add: inv_def promise_ok_def f less_Suc_eq split: option.splits)
  moreover have "interval_ok (snd (run t s))"
    using assms by (auto simp add: inv_def interval_ok_def f split: option.splits)
  moreover have "pending_ok (snd (run t s))"
    using assms
    by (auto simp add: inv_def pending_ok_def f split: option.splits if_splits)
  ultimately show ?thesis by (simp add: inv_def)
qed

lemma inv_run:
  assumes "inv s" and "t < instances s"
  shows "inv (snd (run t s))"
proof (cases "UUID_MAP s t")
  case None
  then show ?thesis using assms by (simp add: inv_run_idle)
next
  case (Some h)
  have "inv (snd (run t (snd (stop t s))))"
    using assms Some by (intro inv_run_idle inv_stop) (simp_all add: stop_fields)
  then show ?thesis by (simp add: run_restart [OF Some])
qed

lemma fire_fields:
  shows "isRunning (fire h s) = isRunning s"
    and "UUID_MAP (fire h s) = UUID_MAP s"
    and "host_timers (fire h s) =
          (case host_timers s h of Some (Timeout, t) \<Rightarrow> (host_timers s)(h := None)
           | _ \<Rightarrow> host_timers s)"
    and "PROMISE_RESOLVE_FUNCTION_MAP (fire h s) =
          (case host_timers s h of
             Some (Timeout, t) \<Rightarrow> (PROMISE_RESOLVE_FUNCTION_MAP s)(t := None)
           | _ \<Rightarrow> PROMISE_RESOLVE_FUNCTION_MAP s)"
    and "resolved (fire h s) =
          (case host_timers s h of
             Some (Timeout, t) \<Rightarrow>
               (case PROMISE_RESOLVE_FUNCTION_MAP s t of
                  Some p \<Rightarrow> (resolved s)(p := True) | None \<Rightarrow> resolved s)
           | _ \<Rightarrow> resolved s)"
    and "callback_calls (fire h s) =
          (case host_timers s h of
             Some (k, t) \<Rightarrow> (callback_calls s)(t := Suc (callback_calls s t))
           | None \<Rightarrow> callback_calls s)"
    and "TIMERS (fire h s) = TIMERS s"
    and "repeat (fire h s) = repeat s"
    and "duration (fire h s) = duration s"
    and "instances (fire h s) = instances s"
    and "next_uuid (fire h s) = next_uuid s"
    and "next_promise (fire h s) = next_promise s"
  by (auto simp add: method_defs split: option.splits native_kind.splits)

lemma inv_fire:
  assumes "inv s" shows "inv (fire h s)"
proof -
  note f = fire_fields
  have "registry_ok (fire h s)"
    using assms by (simp add: inv_def registry_ok_def f)
  moreover have "running_ok (fire h s)"
    using assms by (simp add: inv_def running_ok_def f)
  moreover have "armed_ok (fire h s)"
    using assms by (auto simp add: inv_def armed_ok_def f split: option.splits native_kind.splits)
  moreover have "uuid_ok (fire h s)"
    using assms by (simp add: inv_def uuid_ok_def f)
  moreover have "promise_ok (fire h s)"
    using assms
    by (auto simp add: inv_def promise_ok_def f split: option.splits native_kind.splits)
  moreover have "interval_ok (fire h s)"
    using assms
    by (auto simp add: inv_def interval_ok_def armed_ok_def f
        split: option.splits native_kind.splits)
  moreover have "pending_ok (fire h s)"
  proof -
    have a: "armed_ok s" and p: "pending_ok s" using assms by (simp_all add: inv_def)
    show ?thesis
      using p armed_unique [OF a]
      by (auto simp add: pending_ok_def f split: option.splits native_kind.splits if_splits)
  qed
  ultimately show ?thesis by (simp add: inv_def)
qed


lemma new_Timer_fields:
  assumes "instances s \<notin> set (TIMERS s)"
  shows "fst (new_Timer d r s) = instances s"
    and "isRunning (snd (new_Timer d r s)) = (isRunning s)(instances s := False)"
    and "repeat (snd (new_Timer d r s)) = (repeat s)(instances s := r)"
    and "duration (snd (new_Timer d r s)) = (duration s)(instances s := d)"
    and "callback_calls (snd (new_Timer d r s)) = (callback_calls s)(instances s := 0)"
    and "TIMERS (snd (new_Timer d r s)) = TIMERS s @ [instances s]"
    and "instances (snd (new_Timer d r s)) = Suc (instances s)"
    and "UUID_MAP (snd (new_Timer d r s)) = UUID_MAP s"
    and "host_timers (snd (new_Timer d r s)) = host_timers s"
    and "PROMISE_RESOLVE_FUNCTION_MAP (snd (new_Timer d r s)) = PROMISE_RESOLVE_FUNCTION_MAP s"
    and "resolved (snd (new_Timer d r s)) = resolved s"
    and "next_uuid (snd (new_Timer d r s)) = next_uuid s"
    and "next_promise (snd (new_Timer d r s)) = next_promise s"
  using assms by (simp_all add: new_Timer_def addTimer_def Let_def)

lemma inv_new_Timer:
  assumes "inv s" shows "inv (snd (new_Timer d r s))"
proof -
  have fresh: "instances s \<notin> set (TIMERS s)"
    using assms by (auto simp add: inv_def registry_ok_def)
  note f = new_Timer_fields [OF fresh]
  have nu: "UUID_MAP s (instances s) = None"
    using assms by (cases "UUID_MAP s (instances s)") (auto simp add: inv_def uuid_ok_def)
  have np: "PROMISE_RESOLVE_FUNCTION_MAP s (instances s) = None"
    using assms
    by (cases "PROMISE_RESOLVE_FUNCTION_MAP s (instances s)")
      (auto simp add: inv_def promise_ok_def)
  have nh: "host_timers s h \<noteq> Some (k, instances s)" for h k
    using assms nu by (auto simp add: inv_def armed_ok_def)
  have "registry_ok (snd (new_Timer d r s))"
    using assms by (auto simp add: inv_def registry_ok_def f less_Suc_eq)
  moreover have "running_ok (snd (new_Timer d r s))"
    using assms nu by (simp add: inv_def running_ok_def f)
  moreover have "armed_ok (snd (new_Timer d r s))"
    using assms nh by (auto simp add: inv_def armed_ok_def f)
  moreover have "uuid_ok (snd (new_Timer d r s))"
    using assms by (auto simp add: inv_def uuid_ok_def f less_Suc_eq)
  moreover have "promise_ok (snd (new_Timer d r s))"
    using assms by (auto simp add: inv_def promise_ok_def f less_Suc_eq)
  moreover have "interval_ok (snd (new_Timer d r s))"
    using assms nu np by (simp add: inv_def interval_ok_def f)
  moreover have "pending_ok (snd (new_Timer d r s))"
    using assms by (simp add: inv_def pending_ok_def f)
  ultimately show ?thesis by (simp add: inv_def)
qed

lemma stopTimer_returns: "inv s \<Longrightarrow> fst (stopTimer t s) = Inr ()"
  by (cases "UUID_MAP s t") (simp_all add: stopTimer_def inv_def running_ok_def stop_fields)

lemma inv_stopTimer: "inv s \<Longrightarrow> inv (snd (stopTimer t s))"
  by (simp add: stopTimer_def inv_stop)

lemma inv_runTimer: "inv s \<Longrightarrow> t < instances s \<Longrightarrow> inv (snd (runTimer t s))"
  by (simp add: runTimer_def inv_run)

lemma clearTimer_eq:
  assumes "inv s"
  shows "clearTimer t s = (Inr (),
    (snd (stopTimer t s))\<lparr>TIMERS := removeAll t (TIMERS s)\<rparr>)"
proof -
  have r: "stopTimer t s = (Inr (), snd (stopTimer t s))"
    using stopTimer_returns [OF assms, of t] by (simp add: prod_eq_iff)
  have u: "UUID_MAP (snd (stopTimer t s)) t = None"
    using assms
    by (cases "UUID_MAP s t") (simp_all add: stopTimer_def inv_def running_ok_def stop_fields)
  have T: "TIMERS (snd (stopTimer t s)) = TIMERS s"
    by (cases "UUID_MAP s t") (simp_all add: stopTimer_def stop_fields stop_throws)
  have "clearTimer t s = (Inr (),
     (snd (stopTimer t s))\<lparr>TIMERS := removeAll t (TIMERS (snd (stopTimer t s))),
        UUID_MAP := (UUID_MAP (snd (stopTimer t s)))(t := None)\<rparr>)"
    unfolding clearTimer_def by (subst r) (simp add: Let_def)
  also have "(UUID_MAP (snd (stopTimer t s)))(t := None) = UUID_MAP (snd (stopTimer t s))"
    using u by (simp add: fun_upd_idem)
  finally show ?thesis by (simp add: T)
qed

lemma inv_clearTimer:
  assumes "inv s" shows "inv (snd (clearTimer t s))"
proof -
  let ?u = "snd (stopTimer t s)"
  have u: "inv ?u" using assms by (rule inv_stopTimer)
  have T: "TIMERS ?u = TIMERS s"
    by (cases "UUID_MAP s t") (simp_all add: stopTimer_def stop_fields stop_throws)
  have "registry_ok (?u\<lparr>TIMERS := removeAll t (TIMERS s)\<rparr>)"
    using u T by (simp add: inv_def registry_ok_def distinct_removeAll)
  moreover have "running_ok (?u\<lparr>TIMERS := removeAll t (TIMERS s)\<rparr>)"
    using u by (simp add: inv_def running_ok_def)
  moreover have "armed_ok (?u\<lparr>TIMERS := removeAll t (TIMERS s)\<rparr>)"
    using u by (simp add: inv_def armed_ok_def)
  moreover have "uuid_ok (?u\<lparr>TIMERS := removeAll t (TIMERS s)\<rparr>)"
    using u by (simp add: inv_def uuid_ok_def)
  moreover have "promise_ok (?u\<lparr>TIMERS := removeAll t (TIMERS s)\<rparr>)"
    using u by (simp add: inv_def promise_ok_def)
  moreover have "interval_ok (?u\<lparr>TIMERS := removeAll t (TIMERS s)\<rparr>)"
    using u by (simp add: inv_def interval_ok_def)
  moreover have "pending_ok (?u\<lparr>TIMERS := removeAll t (TIMERS s)\<rparr>)"
    using u by (simp add: inv_def pending_ok_def)
  ultimately show ?thesis by (simp add: clearTimer_eq [OF assms] inv_def)
qed

lemma instances_stop: "instances (snd (stop t s)) = instances s"
  by (cases "UUID_MAP s t") (simp_all add: stop_fields stop_throws)

lemma instances_run: "instances (snd (run t s)) = instances s"
  by (cases "UUID_MAP s t") (simp_all add: run_fields run_restart stop_fields)

lemma instances_stopTimer: "instances (snd (stopTimer t s)) = instances s"
  by (simp add: stopTimer_def instances_stop)

lemma instances_runTimer: "instances (snd (runTimer t s)) = instances s"
  by (simp add: runTimer_def instances_run)

lemma instances_clearTimer: "inv s \<Longrightarrow> instances (snd (clearTimer t s)) = instances s"
  by (simp add: clearTimer_eq instances_stopTimer)

lemma forEach_preserves:
  assumes "\<And>t s. P s \<Longrightarrow> t \<in> A \<Longrightarrow> P (snd (f t s))"
  shows "P s \<Longrightarrow> set ts \<subseteq> A \<Longrightarrow> P (snd (forEach f ts s))"
proof (induction ts arbitrary: s)
  case Nil
  then show ?case by simp
next
  case (Cons t ts)
  then have "P (snd (f t s))" using assms by simp
  with Cons show ?case
    by (cases "f t s") (auto split: sum.splits)
qed

lemma inv_forEach:
  assumes step: "\<And>t s. inv s \<Longrightarrow> t < instances s \<Longrightarrow>
            inv (snd (f t s)) \<and> instances (snd (f t s)) = instances s"
    and "inv s" and "\<forall>t \<in> set ts. t < instances s"
  shows "inv (snd (forEach f ts s)) \<and> instances (snd (forEach f ts s)) = instances s"
proof -
  have "(\<lambda>u. inv u \<and> instances u = instances s) (snd (forEach f ts s))"
  proof (rule forEach_preserves [where A = "{..<instances s}"])
    show "inv s \<and> instances s = instances s" using assms by simp
    show "set ts \<subseteq> {..<instances s}" using assms by auto
  next
    fix t u assume "inv u \<and> instances u = instances s" and "t \<in> {..<instances s}"
    then show "inv (snd (f t u)) \<and> instances (snd (f t u)) = instances s"
      using step [of u t] by simp
  qed
  then show ?thesis .
qed

lemma registry_bound: "inv s \<Longrightarrow> \<forall>t \<in> set (TIMERS s). t < instances s"
  by (simp add: inv_def registry_ok_def)

lemma inv_stopTimers: "inv s \<Longrightarrow> inv (snd (stopTimers s))"
  unfolding stopTimers_def
  using inv_forEach [of stopTimer s "TIMERS s"]
  by (simp add: inv_stopTimer instances_stopTimer registry_bound)

lemma inv_runTimers: "inv s \<Longrightarrow> inv (snd (runTimers s))"
  unfolding runTimers_def
  using inv_forEach [of runTimer s "TIMERS s"]
  by (simp add: inv_runTimer instances_runTimer registry_bound)

lemma inv_clearTimers: "inv s \<Longrightarrow> inv (snd (clearTimers s))"
  unfolding clearTimers_def
  using inv_forEach [of clearTimer s "TIMERS s"]
  by (simp add: inv_clearTimer instances_clearTimer registry_bound)

lemma inv_step: "inv s \<Longrightarrow> possible e s \<Longrightarrow> inv (step e s)"
  by (cases e)
    (simp_all add: inv_new_Timer inv_run inv_stop inv_clearTimer clear_def inv_runTimer
      inv_runTimers inv_stopTimers inv_clearTimers inv_fire)

lemma inv_after: "inv s \<Longrightarrow> history es s \<Longrightarrow> inv (after es s)"
  by (induction es arbitrary: s) (simp_all add: inv_step)

lemma inv_reachable: "history es initial \<Longrightarrow> inv (after es initial)"
  by (simp add: inv_after inv_initial)


lemma isRunning_iff_hasTimer:
  "history es initial \<Longrightarrow> isRunning (after es initial) t = hasTimer t (after es initial)"
  using inv_reachable [of es] by (simp add: inv_def running_ok_def hasTimer_def)

lemma armed_has_handle:
  "history es initial \<Longrightarrow> host_timers (after es initial) h = Some (k, t)
    \<Longrightarrow> UUID_MAP (after es initial) t = Some h"
  using inv_reachable [of es] by (simp add: inv_def armed_recorded)

section \<open>Instances an operation leaves alone\<close>

lemma untouched_refl: "untouched t s s"
  by (simp add: untouched_def)

lemma untouched_trans: "untouched t s u \<Longrightarrow> untouched t u v \<Longrightarrow> untouched t s v"
  by (simp add: untouched_def)

lemma stop_untouched:
  assumes "inv s" and "t' \<noteq> t"
  shows "untouched t s (snd (stop t' s))"
proof (cases "UUID_MAP s t'")
  case None
  then show ?thesis by (simp add: stop_throws untouched_refl)
next
  case (Some h')
  note f = stop_fields [OF Some]
  have a: "armed_ok s" and uo: "uuid_ok s" and po: "promise_ok s"
    using assms(1) by (simp_all add: inv_def)
  have arm: "host_timers s h' \<noteq> Some (k, t)" for k
    using armed_recorded [OF a, of h' k t] handle_inj [OF uo Some, of t] assms(2) by auto
  have res: "PROMISE_RESOLVE_FUNCTION_MAP s t = Some p \<Longrightarrow>
      PROMISE_RESOLVE_FUNCTION_MAP s t' \<noteq> Some p" for p
    using pending_inj [OF po, of t p t'] assms(2) by auto
  show ?thesis
    unfolding untouched_def
    using assms(2) arm res by (auto simp add: f split: option.splits)
qed

lemma run_idle_untouched:
  assumes "inv s" and "t' \<noteq> t" and "UUID_MAP s t' = None"
  shows "untouched t s (snd (run t' s))"
proof -
  note g = run_fields [OF assms(3)]
  have a: "armed_ok s" and uo: "uuid_ok s" and po: "promise_ok s"
    using assms(1) by (simp_all add: inv_def)
  have arm: "host_timers s (next_uuid s) \<noteq> Some (k, t)" for k
    using armed_recorded [OF a, of "next_uuid s" k t] handle_old [OF uo, of t "next_uuid s"]
    by auto
  have res: "PROMISE_RESOLVE_FUNCTION_MAP s t = Some p \<Longrightarrow> p \<noteq> next_promise s" for p
    using pending_old [OF po, of t p] by auto
  show ?thesis
    unfolding untouched_def
    using assms(2) arm res by (auto simp add: g split: option.splits)
qed

lemma run_untouched:
  assumes "inv s" and "t' \<noteq> t"
  shows "untouched t s (snd (run t' s))"
proof (cases "UUID_MAP s t'")
  case None
  then show ?thesis using assms by (simp add: run_idle_untouched)
next
  case (Some h')
  have "untouched t s (snd (stop t' s))" using assms by (rule stop_untouched)
  moreover have "untouched t (snd (stop t' s)) (snd (run t' (snd (stop t' s))))"
    using assms Some by (intro run_idle_untouched inv_stop) (simp_all add: stop_fields)
  ultimately show ?thesis
    by (simp add: run_restart [OF Some]) (rule untouched_trans)
qed

lemma stopTimer_untouched:
  "inv s \<Longrightarrow> t' \<noteq> t \<or> \<not> isRunning s t \<Longrightarrow> untouched t s (snd (stopTimer t' s))"
  by (cases "t' = t") (auto simp add: stopTimer_def stop_untouched untouched_refl)

lemma runTimer_untouched:
  "inv s \<Longrightarrow> t' \<noteq> t \<Longrightarrow> untouched t s (snd (runTimer t' s))"
  by (simp add: runTimer_def run_untouched untouched_refl)

lemma clearTimer_untouched:
  assumes "inv s" and "t' \<noteq> t"
  shows "untouched t s (snd (clearTimer t' s))"
proof -
  have "untouched t s (snd (stopTimer t' s))"
    using assms by (simp add: stopTimer_untouched)
  then show ?thesis
    using assms(2) by (simp add: clearTimer_eq [OF assms(1)] untouched_def)
qed

lemma forEach_untouched:
  assumes f: "\<And>t' u. inv u \<Longrightarrow> t' < instances u \<Longrightarrow>
        inv (snd (f t' u)) \<and> instances (snd (f t' u)) = instances u"
    and g: "\<And>t' u. inv u \<Longrightarrow> t' \<in> set ts \<Longrightarrow> untouched t s u
        \<Longrightarrow> untouched t u (snd (f t' u))"
    and "inv s" and "\<forall>t' \<in> set ts. t' < instances s"
  shows "untouched t s (snd (forEach f ts s))"
proof -
  let ?P = "\<lambda>u. inv u \<and> instances u = instances s \<and> untouched t s u"
  have "?P (snd (forEach f ts s))"
  proof (rule forEach_preserves [where A = "set ts"])
    show "?P s" using assms(3) by (simp add: untouched_refl)
    show "set ts \<subseteq> set ts" by simp
  next
    fix t' u assume u: "?P u" and t': "t' \<in> set ts"
    then have "t' < instances u" using assms(4) by simp
    with u have "inv (snd (f t' u)) \<and> instances (snd (f t' u)) = instances u"
      using f by blast
    moreover have "untouched t u (snd (f t' u))" using g u t' by blast
    ultimately show "?P (snd (f t' u))" using u by (auto intro: untouched_trans)
  qed
  then show ?thesis by simp
qed

lemma stopTimers_untouched:
  assumes "inv s" and "t \<notin> set (TIMERS s) \<or> \<not> isRunning s t"
  shows "untouched t s (snd (stopTimers s))"
  unfolding stopTimers_def
proof (rule forEach_untouched)
  show "inv s" by fact
  show "\<forall>t' \<in> set (TIMERS s). t' < instances s" using assms(1) by (rule registry_bound)
next
  fix t' u assume "inv u" "t' < instances u"
  then show "inv (snd (stopTimer t' u)) \<and> instances (snd (stopTimer t' u)) = instances u"
    by (simp add: inv_stopTimer instances_stopTimer)
next
  fix t' u assume "inv u" and "t' \<in> set (TIMERS s)" and "untouched t s u"
  then show "untouched t u (snd (stopTimer t' u))"
    using assms(2) by (intro stopTimer_untouched) (auto simp add: untouched_def)
qed

lemma runTimers_untouched:
  assumes "inv s" and "t \<notin> set (TIMERS s)"
  shows "untouched t s (snd (runTimers s))"
  unfolding runTimers_def
proof (rule forEach_untouched)
  show "inv s" by fact
  show "\<forall>t' \<in> set (TIMERS s). t' < instances s" using assms(1) by (rule registry_bound)
next
  fix t' u assume "inv u" "t' < instances u"
  then show "inv (snd (runTimer t' u)) \<and> instances (snd (runTimer t' u)) = instances u"
    by (simp add: inv_runTimer instances_runTimer)
next
  fix t' u assume "inv u" and "t' \<in> set (TIMERS s)" and "untouched t s u"
  then show "untouched t u (snd (runTimer t' u))"
    using assms(2) by (intro runTimer_untouched) auto
qed

lemma clearTimers_untouched:
  assumes "inv s" and "t \<notin> set (TIMERS s)"
  shows "untouched t s (snd (clearTimers s))"
  unfolding clearTimers_def
proof (rule forEach_untouched)
  show "inv s" by fact
  show "\<forall>t' \<in> set (TIMERS s). t' < instances s" using assms(1) by (rule registry_bound)
next
  fix t' u assume "inv u" "t' < instances u"
  then show "inv (snd (clearTimer t' u)) \<and> instances (snd (clearTimer t' u)) = instances u"
    by (simp add: inv_clearTimer instances_clearTimer)
next
  fix t' u assume "inv u" and "t' \<in> set (TIMERS s)" and "untouched t s u"
  then show "untouched t u (snd (clearTimer t' u))"
    using assms(2) by (intro clearTimer_untouched) auto
qed

section \<open>The loops over the registry\<close>

lemma forEach_clears:
  assumes step: "\<And>t u. inv u \<Longrightarrow> t < instances u \<Longrightarrow>
        inv (snd (f t u)) \<and> instances (snd (f t u)) = instances u"
    and clr: "\<And>t u. inv u \<Longrightarrow> UUID_MAP (snd (f t u)) t = None"
    and keep: "\<And>t t' u. inv u \<Longrightarrow> UUID_MAP u t = None \<Longrightarrow> UUID_MAP (snd (f t' u)) t = None"
    and ok: "\<And>t u. inv u \<Longrightarrow> fst (f t u) = Inr ()"
  shows "inv s \<Longrightarrow> \<forall>t \<in> set ts. t < instances s \<Longrightarrow>
     fst (forEach f ts s) = Inr () \<and>
     (\<forall>t \<in> set ts. UUID_MAP (snd (forEach f ts s)) t = None) \<and>
     (\<forall>t. UUID_MAP s t = None \<longrightarrow> UUID_MAP (snd (forEach f ts s)) t = None)"
proof (induction ts arbitrary: s)
  case Nil
  then show ?case by simp
next
  case (Cons t ts)
  obtain u where r: "f t s = (Inr (), u)"
    using ok [OF Cons.prems(1), of t] by (cases "f t s") auto
  then have su: "snd (f t s) = u" by simp
  have u: "inv u" "instances u = instances s"
    using step [of s t] Cons.prems by (simp_all add: su)
  have IH: "fst (forEach f ts u) = Inr () \<and>
     (\<forall>t \<in> set ts. UUID_MAP (snd (forEach f ts u)) t = None) \<and>
     (\<forall>t. UUID_MAP u t = None \<longrightarrow> UUID_MAP (snd (forEach f ts u)) t = None)"
    using Cons.IH [of u] u Cons.prems(2) by simp
  have e: "forEach f (t # ts) s = forEach f ts u"
    by (simp add: r)
  have "UUID_MAP u t = None" using clr [OF Cons.prems(1), of t] by (simp add: su)
  moreover have "UUID_MAP s t' = None \<Longrightarrow> UUID_MAP u t' = None" for t'
    using keep [OF Cons.prems(1), of t' t] by (simp add: su)
  ultimately show ?case using IH unfolding e by simp
qed

lemma stopTimer_clears: "inv s \<Longrightarrow> UUID_MAP (snd (stopTimer t s)) t = None"
  by (cases "UUID_MAP s t") (simp_all add: stopTimer_def inv_def running_ok_def stop_fields)

lemma stop_keeps_idle: "UUID_MAP s t = None \<Longrightarrow> UUID_MAP (snd (stop t' s)) t = None"
  by (cases "UUID_MAP s t'") (simp_all add: stop_fields stop_throws)

lemma stopTimer_keeps_idle:
  "UUID_MAP s t = None \<Longrightarrow> UUID_MAP (snd (stopTimer t' s)) t = None"
  by (simp add: stopTimer_def stop_keeps_idle)

lemma clearTimer_clears: "inv s \<Longrightarrow> UUID_MAP (snd (clearTimer t s)) t = None"
  by (simp add: clearTimer_eq stopTimer_clears)

lemma clearTimer_keeps_idle:
  "inv s \<Longrightarrow> UUID_MAP s t = None \<Longrightarrow> UUID_MAP (snd (clearTimer t' s)) t = None"
  by (simp add: clearTimer_eq stopTimer_keeps_idle)

lemma clearTimer_returns: "inv s \<Longrightarrow> fst (clearTimer t s) = Inr ()"
  by (simp add: clearTimer_eq)

lemma stopTimers_clears:
  assumes "inv s"
  shows "fst (stopTimers s) = Inr () \<and>
     (\<forall>t \<in> set (TIMERS s). UUID_MAP (snd (stopTimers s)) t = None)"
  unfolding stopTimers_def
  using forEach_clears [of stopTimer s "TIMERS s"] assms
  by (simp add: inv_stopTimer instances_stopTimer stopTimer_clears stopTimer_keeps_idle
      stopTimer_returns registry_bound)

lemma clearTimers_clears:
  assumes "inv s"
  shows "fst (clearTimers s) = Inr () \<and>
     (\<forall>t \<in> set (TIMERS s). UUID_MAP (snd (clearTimers s)) t = None)"
  unfolding clearTimers_def
  using forEach_clears [of clearTimer s "TIMERS s"] assms
  by (simp add: inv_clearTimer instances_clearTimer clearTimer_clears clearTimer_keeps_idle
      clearTimer_returns registry_bound)

lemma idle_facts:
  assumes "inv s" and "UUID_MAP s t = None"
  shows "\<not> isRunning s t" and "host_timers s h \<noteq> Some (k, t)"
proof -
  show "\<not> isRunning s t" using assms by (simp add: inv_def running_ok_def)
  have "armed_ok s" using assms(1) by (simp add: inv_def)
  then show "host_timers s h \<noteq> Some (k, t)"
    using armed_recorded [of s h k t] assms(2) by auto
qed

lemma TIMERS_forEach_stopTimer: "TIMERS (snd (forEach stopTimer ts s)) = TIMERS s"
proof (induction ts arbitrary: s)
  case Nil
  then show ?case by simp
next
  case (Cons t ts)
  have T: "TIMERS (snd (stopTimer t s)) = TIMERS s"
    by (cases "UUID_MAP s t") (simp_all add: stopTimer_def stop_fields stop_throws)
  show ?case
  proof (cases "stopTimer t s")
    case (Pair r u)
    then show ?thesis using Cons.IH [of u] T by (cases r) simp_all
  qed
qed

lemma TIMERS_forEach_clearTimer:
  "inv s \<Longrightarrow> \<forall>t \<in> set ts. t < instances s
    \<Longrightarrow> set (TIMERS (snd (forEach clearTimer ts s))) = set (TIMERS s) - set ts"
proof (induction ts arbitrary: s)
  case Nil
  then show ?case by simp
next
  case (Cons t ts)
  obtain u where r: "clearTimer t s = (Inr (), u)"
    using clearTimer_returns [OF Cons.prems(1), of t] by (cases "clearTimer t s") auto
  then have su: "snd (clearTimer t s) = u" by simp
  have u: "inv u" "instances u = instances s"
    using inv_clearTimer [OF Cons.prems(1), of t] instances_clearTimer [OF Cons.prems(1), of t]
    by (simp_all add: su)
  have "TIMERS (snd (clearTimer t s)) = removeAll t (TIMERS s)"
    by (simp add: clearTimer_eq [OF Cons.prems(1)])
  then have T: "TIMERS u = removeAll t (TIMERS s)"
    by (simp add: su)
  have e: "forEach clearTimer (t # ts) s = forEach clearTimer ts u"
    by (simp add: r)
  show ?case
    unfolding e using Cons.IH [of u] u Cons.prems(2) T by auto
qed

lemma stopTimers_as_stops:
  "inv s \<Longrightarrow> distinct ts \<Longrightarrow>
     forEach stopTimer ts s = forEach stop (filter (isRunning s) ts) s"
proof (induction ts arbitrary: s)
  case Nil
  then show ?case by simp
next
  case (Cons t ts)
  show ?case
  proof (cases "isRunning s t")
    case False
    then show ?thesis using Cons by (simp add: stopTimer_def)
  next
    case True
    then obtain h where h: "UUID_MAP s t = Some h"
      using Cons.prems(1) by (auto simp add: inv_def running_ok_def)
    obtain u where r: "stop t s = (Inr (), u)"
      using stop_returns [OF h] by blast
    then have su: "snd (stop t s) = u" by simp
    have iu: "inv u" using inv_stop [OF Cons.prems(1), of t] by (simp add: su)
    have "isRunning u = (isRunning s)(t := False)"
      using stop_fields(2) [OF h] by (simp add: su)
    then have "filter (isRunning u) ts = filter (isRunning s) ts"
      using Cons.prems(2) by (intro filter_cong) auto
    moreover have "forEach stopTimer ts u = forEach stop (filter (isRunning u) ts) u"
      using Cons.prems iu by (intro Cons.IH) simp_all
    moreover have "forEach stopTimer (t # ts) s = forEach stopTimer ts u"
      using True by (simp add: stopTimer_def r)
    moreover have "forEach stop (filter (isRunning s) (t # ts)) s
        = forEach stop (filter (isRunning s) ts) u"
      using True by (simp add: r)
    ultimately show ?thesis by simp
  qed
qed

section \<open>Histories and the registry\<close>

lemma unregistered_step:
  assumes "inv s" and "t < instances s" and "t \<notin> set (TIMERS s)" and "possible e s"
  shows "t \<notin> set (TIMERS (step e s))"
proof (cases e)
  case (New d r)
  have "instances s \<notin> set (TIMERS s)"
    using assms(1) by (auto simp add: inv_def registry_ok_def)
  then show ?thesis using assms New by (simp add: new_Timer_fields)
next
  case (Run t')
  have "TIMERS (snd (run t' s)) = TIMERS s"
    by (cases "UUID_MAP s t'") (simp_all add: run_fields run_restart stop_fields)
  then show ?thesis using assms Run by simp
next
  case (Stop t')
  have "TIMERS (snd (stop t' s)) = TIMERS s"
    by (cases "UUID_MAP s t'") (simp_all add: stop_fields stop_throws)
  then show ?thesis using assms Stop by simp
next
  case (Clear t')
  then show ?thesis
    using assms by (simp add: clear_def clearTimer_eq)
next
  case (RunTimer t')
  have "TIMERS (snd (run t' s)) = TIMERS s"
    by (cases "UUID_MAP s t'") (simp_all add: run_fields run_restart stop_fields)
  then show ?thesis using assms RunTimer by (simp add: runTimer_def)
next
  case RunTimers
  then show ?thesis
    using runTimers_untouched [OF assms(1) assms(3)] assms(3) by (simp add: untouched_def)
next
  case StopTimers
  then show ?thesis
    using assms(3) by (simp add: stopTimers_def TIMERS_forEach_stopTimer)
next
  case ClearTimers
  then show ?thesis
    using clearTimers_untouched [OF assms(1) assms(3)] assms(3) by (simp add: untouched_def)
next
  case (Fire h)
  then show ?thesis using assms by (simp add: fire_fields)
qed

lemma instances_step: "inv s \<Longrightarrow> possible e s \<Longrightarrow> instances s \<le> instances (step e s)"
proof (cases e)
  case (New d r)
  assume "inv s"
  then have "instances s \<notin> set (TIMERS s)"
    by (auto simp add: inv_def registry_ok_def)
  then show ?thesis using New by (simp add: new_Timer_fields)
next
  case RunTimers
  assume "inv s"
  then show ?thesis
    using RunTimers inv_forEach [of runTimer s "TIMERS s"]
    by (simp add: runTimers_def inv_runTimer instances_runTimer registry_bound)
next
  case StopTimers
  assume "inv s"
  then show ?thesis
    using StopTimers inv_forEach [of stopTimer s "TIMERS s"]
    by (simp add: stopTimers_def inv_stopTimer instances_stopTimer registry_bound)
next
  case ClearTimers
  assume "inv s"
  then show ?thesis
    using ClearTimers inv_forEach [of clearTimer s "TIMERS s"]
    by (simp add: clearTimers_def inv_clearTimer instances_clearTimer registry_bound)
qed (simp_all add: instances_run instances_stop instances_runTimer instances_clearTimer
    clear_def fire_fields)

lemma unregistered_after:
  "inv s \<Longrightarrow> t < instances s \<Longrightarrow> t \<notin> set (TIMERS s) \<Longrightarrow> history es s
    \<Longrightarrow> t \<notin> set (TIMERS (after es s))"
proof (induction es arbitrary: s)
  case Nil
  then show ?case by simp
next
  case (Cons e es)
  have "inv (step e s)" using Cons.prems by (simp add: inv_step)
  moreover have "t < instances (step e s)"
    using instances_step [of s e] Cons.prems by simp
  moreover have "t \<notin> set (TIMERS (step e s))"
    using Cons.prems by (intro unregistered_step) simp_all
  ultimately show ?case using Cons.IH [of "step e s"] Cons.prems by simp
qed

section \<open>A pending completion of a one-shot instance\<close>

lemma waiting_unresolved: "waiting t p c s \<Longrightarrow> \<not> resolved s p"
  by (auto simp add: waiting_def inv_def dest: pending_unresolved)

lemma waiting_inv: "waiting t p c s \<Longrightarrow> inv s"
  by (simp add: waiting_def)

lemma waiting_untouched:
  "waiting t p c s \<Longrightarrow> inv s' \<Longrightarrow> instances s \<le> instances s' \<Longrightarrow> untouched t s s'
    \<Longrightarrow> waiting t p c s'"
  by (simp add: waiting_def untouched_def)

lemma new_Timer_untouched:
  assumes "inv s" and "t < instances s"
  shows "untouched t s (snd (new_Timer d r s))"
proof -
  have "instances s \<notin> set (TIMERS s)"
    using assms(1) by (auto simp add: inv_def registry_ok_def)
  then show ?thesis using assms(2) by (simp add: untouched_def new_Timer_fields)
qed

lemma fire_untouched:
  assumes "inv s" and "\<forall>k. host_timers s h \<noteq> Some (k, t)"
  shows "untouched t s (fire h s)"
proof (cases "host_timers s h")
  case None
  then show ?thesis by (simp add: untouched_def fire_fields)
next
  case (Some kt)
  obtain k t' where kt: "kt = (k, t')" by (cases kt)
  have ne: "t' \<noteq> t" using assms(2) Some kt by auto
  have po: "promise_ok s" using assms(1) by (simp add: inv_def)
  have res: "PROMISE_RESOLVE_FUNCTION_MAP s t = Some p \<Longrightarrow>
      PROMISE_RESOLVE_FUNCTION_MAP s t' \<noteq> Some p" for p
    using pending_inj [OF po, of t p t'] ne by auto
  show ?thesis
    unfolding untouched_def
    using ne res assms(2) Some kt
    by (cases k) (auto simp add: fire_fields split: option.splits)
qed

lemma waiting_stop:
  assumes "waiting t p c s"
  shows "waiting t p c (snd (stop t' s))"
proof (cases "t' = t")
  case False
  then show ?thesis
    using assms
    by (intro waiting_untouched [OF assms] inv_stop stop_untouched)
      (simp_all add: waiting_def instances_stop)
next
  case True
  show ?thesis
  proof (cases "UUID_MAP s t")
    case None
    then show ?thesis using assms True by (simp add: stop_throws)
  next
    case (Some h)
    have "inv (snd (stop t s))" using assms by (simp add: waiting_def inv_stop)
    then show ?thesis
      using assms True by (simp add: waiting_def stop_fields [OF Some])
  qed
qed

lemma waiting_run:
  assumes "waiting t p c s" and "t' < instances s"
  shows "waiting t p c (snd (run t' s))"
proof (cases "t' = t")
  case False
  then show ?thesis
    using assms
    by (intro waiting_untouched [OF assms(1)] inv_run run_untouched)
      (simp_all add: waiting_def instances_run)
next
  case True
  let ?u = "if UUID_MAP s t = None then s else snd (stop t s)"
  have u: "waiting t p c ?u" using assms(1) waiting_stop [OF assms(1), of t] by simp
  have idle: "UUID_MAP ?u t = None"
    by (cases "UUID_MAP s t") (simp_all add: stop_fields)
  have i: "inv (snd (run t ?u))"
    using u by (intro inv_run) (simp_all add: waiting_def)
  have "waiting t p c (snd (run t ?u))"
    using u i unfolding waiting_def by (simp add: run_fields [OF idle])
  then show ?thesis using True run_pre [of t s] by simp
qed

lemma waiting_stopTimer: "waiting t p c s \<Longrightarrow> waiting t p c (snd (stopTimer t' s))"
  by (simp add: stopTimer_def waiting_stop)

lemma waiting_runTimer:
  "waiting t p c s \<Longrightarrow> t' < instances s \<Longrightarrow> waiting t p c (snd (runTimer t' s))"
  by (simp add: runTimer_def waiting_run)

lemma waiting_clearTimer:
  assumes "waiting t p c s"
  shows "waiting t p c (snd (clearTimer t' s))"
proof -
  have i: "inv s" using assms by (simp add: waiting_def)
  have "inv (snd (clearTimer t' s))" using i by (rule inv_clearTimer)
  moreover have "waiting t p c (snd (stopTimer t' s))" using assms by (rule waiting_stopTimer)
  ultimately show ?thesis
    by (simp add: clearTimer_eq [OF i] waiting_def)
qed

lemma waiting_forEach:
  assumes f: "\<And>t' u. waiting t p c u \<Longrightarrow> t' < instances u \<Longrightarrow>
        waiting t p c (snd (f t' u)) \<and> instances (snd (f t' u)) = instances u"
    and "waiting t p c s" and "\<forall>t' \<in> set ts. t' < instances s"
  shows "waiting t p c (snd (forEach f ts s))"
proof -
  let ?P = "\<lambda>u. waiting t p c u \<and> instances u = instances s"
  have "?P (snd (forEach f ts s))"
  proof (rule forEach_preserves [where A = "set ts"])
    show "?P s" using assms(2) by simp
    show "set ts \<subseteq> set ts" by simp
  next
    fix t' u assume u: "?P u" and t': "t' \<in> set ts"
    then have "t' < instances u" using assms(3) by simp
    with u show "?P (snd (f t' u))" using f [of u t'] by simp
  qed
  then show ?thesis by simp
qed

lemma waiting_fire:
  assumes "waiting t p c s" and "host_timers s h \<noteq> Some (Timeout, t)"
  shows "waiting t p c (fire h s)"
proof -
  have i: "inv s" using assms(1) by (simp add: waiting_def)
  then have a: "armed_ok s" by (simp add: inv_def)
  have "host_timers s h \<noteq> Some (k, t)" for k
  proof (cases k)
    case Timeout
    then show ?thesis using assms(2) by simp
  next
    case Interval
    then show ?thesis
      using armed_kind [OF a, of h k t] assms(1) by (auto simp add: waiting_def)
  qed
  then have "untouched t s (fire h s)" using i by (intro fire_untouched) simp_all
  then show ?thesis
    using assms(1) i by (intro waiting_untouched [OF assms(1)] inv_fire) (simp_all add: fire_fields)
qed

lemma fire_resolves:
  assumes "waiting t p c s" and "host_timers s h = Some (Timeout, t)"
  shows "resolved (fire h s) p \<and> callback_calls (fire h s) t = Suc c"
  using assms by (simp add: waiting_def fire_fields)

lemma waiting_step:
  assumes "waiting t p c s" and "possible e s"
  shows "waiting t p c (step e s) \<or>
         (resolved (step e s) p \<and> callback_calls (step e s) t = Suc c)"
proof -
  have i: "inv s" and n: "t < instances s" using assms(1) by (simp_all add: waiting_def)
  show ?thesis
  proof (cases e)
    case (New d r)
    have "waiting t p c (snd (new_Timer d r s))"
      using i n instances_step [OF i, of "New d r"]
      by (intro waiting_untouched [OF assms(1)] inv_new_Timer new_Timer_untouched) simp_all
    then show ?thesis using New by simp
  next
    case (Run t')
    then show ?thesis using assms by (simp add: waiting_run)
  next
    case (Stop t')
    then show ?thesis using assms by (simp add: waiting_stop)
  next
    case (Clear t')
    then show ?thesis using assms by (simp add: clear_def waiting_clearTimer)
  next
    case (RunTimer t')
    then show ?thesis using assms by (simp add: waiting_runTimer)
  next
    case RunTimers
    have "waiting t p c (snd (forEach runTimer (TIMERS s) s))"
      using assms(1) registry_bound [OF i]
      by (intro waiting_forEach) (simp_all add: waiting_runTimer instances_runTimer)
    then show ?thesis using RunTimers by (simp add: runTimers_def)
  next
    case StopTimers
    have "waiting t p c (snd (forEach stopTimer (TIMERS s) s))"
      using assms(1) registry_bound [OF i]
      by (intro waiting_forEach) (simp_all add: waiting_stopTimer instances_stopTimer)
    then show ?thesis using StopTimers by (simp add: stopTimers_def)
  next
    case ClearTimers
    have "waiting t p c (snd (forEach clearTimer (TIMERS s) s))"
      using assms(1) registry_bound [OF i]
      by (intro waiting_forEach)
        (simp_all add: waiting_clearTimer instances_clearTimer waiting_inv)
    then show ?thesis using ClearTimers by (simp add: clearTimers_def)
  next
    case (Fire h)
    show ?thesis
    proof (cases "host_timers s h = Some (Timeout, t)")
      case True
      then show ?thesis using fire_resolves [OF assms(1) True] Fire by simp
    next
      case False
      then show ?thesis using waiting_fire [OF assms(1) False] Fire by simp
    qed
  qed
qed

section \<open>Resolution along a history\<close>

lemma after_snoc: "after (es @ [e]) s = step e (after es s)"
  by (induction es arbitrary: s) simp_all

lemma history_snoc: "history (es @ [e]) s = (history es s \<and> possible e (after es s))"
  by (induction es arbitrary: s) simp_all

lemma resolved_stop: "resolved s p \<Longrightarrow> resolved (snd (stop t s)) p"
  by (cases "UUID_MAP s t") (auto simp add: stop_fields stop_throws split: option.splits)

lemma resolved_run: "resolved s p \<Longrightarrow> resolved (snd (run t s)) p"
proof -
  assume r: "resolved s p"
  let ?u = "if UUID_MAP s t = None then s else snd (stop t s)"
  have idle: "UUID_MAP ?u t = None"
    by (cases "UUID_MAP s t") (simp_all add: stop_fields)
  have "resolved ?u p" using r by (simp add: resolved_stop)
  then have "resolved (snd (run t ?u)) p"
    by (auto simp add: run_fields [OF idle] split: option.splits)
  then show ?thesis using run_pre [of t s] by simp
qed

lemma resolved_stopTimer: "resolved s p \<Longrightarrow> resolved (snd (stopTimer t s)) p"
  by (simp add: stopTimer_def resolved_stop)

lemma resolved_runTimer: "resolved s p \<Longrightarrow> resolved (snd (runTimer t s)) p"
  by (simp add: runTimer_def resolved_run)

lemma resolved_clearTimer: "inv s \<Longrightarrow> resolved s p \<Longrightarrow> resolved (snd (clearTimer t s)) p"
  by (simp add: clearTimer_eq resolved_stopTimer)

lemma resolved_fire: "resolved s p \<Longrightarrow> resolved (fire h s) p"
  by (auto simp add: fire_fields split: option.splits native_kind.splits)

lemma resolved_forEach:
  assumes f: "\<And>t u. inv u \<Longrightarrow> t < instances u \<Longrightarrow>
        inv (snd (f t u)) \<and> instances (snd (f t u)) = instances u"
    and g: "\<And>t u. inv u \<Longrightarrow> resolved u p \<Longrightarrow> resolved (snd (f t u)) p"
    and "inv s" and "\<forall>t \<in> set ts. t < instances s" and "resolved s p"
  shows "resolved (snd (forEach f ts s)) p"
proof -
  let ?P = "\<lambda>u. inv u \<and> instances u = instances s \<and> resolved u p"
  have "?P (snd (forEach f ts s))"
  proof (rule forEach_preserves [where A = "set ts"])
    show "?P s" using assms by simp
    show "set ts \<subseteq> set ts" by simp
  next
    fix t u assume u: "?P u" and t: "t \<in> set ts"
    then have "t < instances u" using assms(4) by simp
    with u show "?P (snd (f t u))" using f [of u t] g [of u t] by simp
  qed
  then show ?thesis by simp
qed

lemma resolved_step:
  assumes "inv s" and "resolved s p"
  shows "resolved (step e s) p"
proof (cases e)
  case (New d r)
  have "instances s \<notin> set (TIMERS s)"
    using assms(1) by (auto simp add: inv_def registry_ok_def)
  then show ?thesis using assms New by (simp add: new_Timer_fields)
next
  case RunTimers
  have "resolved (snd (forEach runTimer (TIMERS s) s)) p"
    using assms registry_bound [OF assms(1)]
    by (intro resolved_forEach)
      (simp_all add: inv_runTimer instances_runTimer resolved_runTimer)
  then show ?thesis using RunTimers by (simp add: runTimers_def)
next
  case StopTimers
  have "resolved (snd (forEach stopTimer (TIMERS s) s)) p"
    using assms registry_bound [OF assms(1)]
    by (intro resolved_forEach)
      (simp_all add: inv_stopTimer instances_stopTimer resolved_stopTimer)
  then show ?thesis using StopTimers by (simp add: stopTimers_def)
next
  case ClearTimers
  have "resolved (snd (forEach clearTimer (TIMERS s) s)) p"
    using assms registry_bound [OF assms(1)]
    by (intro resolved_forEach)
      (simp_all add: inv_clearTimer instances_clearTimer resolved_clearTimer)
  then show ?thesis using ClearTimers by (simp add: clearTimers_def)
qed (use assms in \<open>simp_all add: resolved_run resolved_stop resolved_clearTimer clear_def
    resolved_runTimer resolved_fire\<close>)

lemma resolved_after:
  "inv s \<Longrightarrow> history es s \<Longrightarrow> resolved s p \<Longrightarrow> resolved (after es s) p"
  by (induction es arbitrary: s) (simp_all add: inv_step resolved_step)

lemma waiting_after:
  "waiting t p c s \<Longrightarrow> history es s \<Longrightarrow> \<not> resolved (after es s) p
    \<Longrightarrow> waiting t p c (after es s)"
proof (induction es arbitrary: s)
  case Nil
  then show ?case by simp
next
  case (Cons e es)
  have i: "inv (step e s)" using Cons.prems by (simp add: waiting_inv inv_step)
  have "\<not> resolved (step e s) p"
    using resolved_after [OF i, of es p] Cons.prems by auto
  then have "waiting t p c (step e s)"
    using waiting_step [OF Cons.prems(1), of e] Cons.prems(2) by auto
  then show ?case using Cons.IH [of "step e s"] Cons.prems by simp
qed

lemma waiting_resolution:
  assumes "waiting t p c s" and "history (es @ [e]) s"
    and "\<not> resolved (after es s) p" and "resolved (after (es @ [e]) s) p"
  shows "callback_calls (after (es @ [e]) s) t = Suc c"
proof -
  have h: "history es s" and q: "possible e (after es s)"
    using assms(2) by (simp_all add: history_snoc)
  have w: "waiting t p c (after es s)"
    using assms(1) h assms(3) by (rule waiting_after)
  have "\<not> waiting t p c (step e (after es s))"
    using assms(4) waiting_unresolved [of t p c "step e (after es s)"]
    by (auto simp add: after_snoc)
  then show ?thesis
    using waiting_step [OF w q] by (simp add: after_snoc)
qed

lemma run_starts_waiting:
  assumes "inv s" and "t < instances s" and "\<not> repeat s t"
    and "PROMISE_RESOLVE_FUNCTION_MAP s t = None"
  shows "waiting t (next_promise s) (callback_calls s t) (snd (run t s))"
    and "fst (run t s) = Inr (next_promise s)"
proof -
  let ?u = "if UUID_MAP s t = None then s else snd (stop t s)"
  have idle: "UUID_MAP ?u t = None"
    by (cases "UUID_MAP s t") (simp_all add: stop_fields)
  have same: "PROMISE_RESOLVE_FUNCTION_MAP ?u t = None" "next_promise ?u = next_promise s"
      "callback_calls ?u = callback_calls s" "repeat ?u = repeat s" "instances ?u = instances s"
    using assms(3,4) by (cases "UUID_MAP s t"; simp add: stop_fields)+
  have r: "run t s = run t ?u" by (rule run_pre)
  have "inv (snd (run t s))" using assms(1,2) by (rule inv_run)
  then show "waiting t (next_promise s) (callback_calls s t) (snd (run t s))"
    unfolding waiting_def r using assms(2,3) by (simp add: run_fields [OF idle] same)
  show "fst (run t s) = Inr (next_promise s)"
    unfolding r by (simp add: run_fields [OF idle] same)
qed

section \<open>A cleared instance along a history\<close>

lemma cleared_unresolved: "cleared t p s \<Longrightarrow> \<not> resolved s p"
  by (auto simp add: cleared_def inv_def dest: pending_unresolved)

lemma cleared_untouched:
  "cleared t p s \<Longrightarrow> inv s' \<Longrightarrow> instances s \<le> instances s' \<Longrightarrow> untouched t s s'
    \<Longrightarrow> cleared t p s'"
  by (simp add: cleared_def untouched_def)

lemma cleared_step:
  assumes "cleared t p s" and "possible e s" and "e \<noteq> Run t" and "e \<noteq> RunTimer t"
  shows "cleared t p (step e s)"
proof -
  have i: "inv s" and n: "t < instances s" and u: "UUID_MAP s t = None"
    and m: "t \<notin> set (TIMERS s)"
    using assms(1) by (simp_all add: cleared_def)
  have i': "inv (step e s)" using i assms(2) by (rule inv_step)
  have le: "instances s \<le> instances (step e s)" using i assms(2) by (rule instances_step)
  have "untouched t s (step e s)"
  proof (cases e)
    case (New d r)
    then show ?thesis using i n by (simp add: new_Timer_untouched)
  next
    case (Run t')
    then show ?thesis using i assms(3) by (simp add: run_untouched)
  next
    case (Stop t')
    then show ?thesis
      using i u by (cases "t' = t") (simp_all add: stop_untouched stop_throws untouched_refl)
  next
    case (Clear t')
    show ?thesis
    proof (cases "t' = t")
      case False
      then show ?thesis using Clear i by (simp add: clear_def clearTimer_untouched)
    next
      case True
      have "\<not> isRunning s t" using idle_facts(1) [OF i u] .
      then have "snd (stopTimer t s) = s" by (simp add: stopTimer_def)
      then show ?thesis
        using Clear True m by (simp add: clear_def clearTimer_eq [OF i] untouched_def)
    qed
  next
    case (RunTimer t')
    then show ?thesis using i assms(4) by (simp add: runTimer_untouched)
  next
    case RunTimers
    then show ?thesis using i m by (simp add: runTimers_untouched)
  next
    case StopTimers
    then show ?thesis using i m by (simp add: stopTimers_untouched)
  next
    case ClearTimers
    then show ?thesis using i m by (simp add: clearTimers_untouched)
  next
    case (Fire h)
    then show ?thesis using i idle_facts(2) [OF i u] by (simp add: fire_untouched)
  qed
  then show ?thesis using assms(1) i' le by (rule cleared_untouched [rotated 3])
qed

lemma cleared_after:
  "cleared t p s \<Longrightarrow> history es s \<Longrightarrow> Run t \<notin> set es \<Longrightarrow> RunTimer t \<notin> set es
    \<Longrightarrow> cleared t p (after es s)"
proof (induction es arbitrary: s)
  case Nil
  then show ?case by simp
next
  case (Cons e es)
  have "cleared t p (step e s)"
    using Cons.prems by (intro cleared_step) auto
  then show ?case using Cons.IH [of "step e s"] Cons.prems by simp
qed

lemma clear_makes_cleared:
  assumes "inv s" and "t < instances s" and "\<not> repeat s t"
    and "PROMISE_RESOLVE_FUNCTION_MAP s t = Some p"
  shows "cleared t p (snd (clear t s))" and "fst (clear t s) = Inr ()"
proof -
  have w: "waiting t p (callback_calls s t) s" using assms by (simp add: waiting_def)
  have w': "waiting t p (callback_calls s t) (snd (clearTimer t s))"
    using w by (rule waiting_clearTimer)
  have "instances (snd (clearTimer t s)) = instances s"
    using assms(1) by (rule instances_clearTimer)
  moreover have "UUID_MAP (snd (clearTimer t s)) t = None"
    using assms(1) by (rule clearTimer_clears)
  moreover have "t \<notin> set (TIMERS (snd (clearTimer t s)))"
    by (simp add: clearTimer_eq [OF assms(1)])
  ultimately show "cleared t p (snd (clear t s))"
    using w' by (simp add: cleared_def waiting_def clear_def)
  show "fst (clear t s) = Inr ()"
    using assms(1) by (simp add: clear_def clearTimer_returns)
qed

section \<open>An instance that is never run\<close>

lemma run_keeps_idle:
  assumes "UUID_MAP s t = None" and "t' \<noteq> t"
  shows "UUID_MAP (snd (run t' s)) t = None"
proof -
  let ?u = "if UUID_MAP s t' = None then s else snd (stop t' s)"
  have idle: "UUID_MAP ?u t' = None"
    by (cases "UUID_MAP s t'") (simp_all add: stop_fields)
  have "UUID_MAP ?u t = None" using assms(1) by (simp add: stop_keeps_idle)
  then have "UUID_MAP (snd (run t' ?u)) t = None"
    using assms(2) by (simp add: run_fields [OF idle])
  then show ?thesis using run_pre [of t' s] by simp
qed

lemma idle_step:
  assumes "inv s" and "possible e s" and "UUID_MAP s t = None"
    and "e \<noteq> Run t" and "e \<noteq> RunTimer t" and "e \<noteq> RunTimers"
  shows "UUID_MAP (step e s) t = None"
proof (cases e)
  case (New d r)
  have "instances s \<notin> set (TIMERS s)"
    using assms(1) by (auto simp add: inv_def registry_ok_def)
  then show ?thesis using assms(3) New by (simp add: new_Timer_fields)
next
  case (Run t')
  then show ?thesis using assms by (simp add: run_keeps_idle)
next
  case (Stop t')
  then show ?thesis using assms by (simp add: stop_keeps_idle)
next
  case (Clear t')
  then show ?thesis using assms by (simp add: clear_def clearTimer_keeps_idle)
next
  case (RunTimer t')
  then show ?thesis using assms by (simp add: runTimer_def run_keeps_idle)
next
  case RunTimers
  then show ?thesis using assms by simp
next
  case StopTimers
  have "\<forall>t. UUID_MAP s t = None \<longrightarrow> UUID_MAP (snd (forEach stopTimer (TIMERS s) s)) t = None"
    using forEach_clears [of stopTimer s "TIMERS s"] assms(1)
    by (simp add: inv_stopTimer instances_stopTimer stopTimer_clears stopTimer_keeps_idle
        stopTimer_returns registry_bound)
  then show ?thesis using StopTimers assms(3) by (simp add: stopTimers_def)
next
  case ClearTimers
  have "\<forall>t. UUID_MAP s t = None \<longrightarrow> UUID_MAP (snd (forEach clearTimer (TIMERS s) s)) t = None"
    using forEach_clears [of clearTimer s "TIMERS s"] assms(1)
    by (simp add: inv_clearTimer instances_clearTimer clearTimer_clears clearTimer_keeps_idle
        clearTimer_returns registry_bound)
  then show ?thesis using ClearTimers assms(3) by (simp add: clearTimers_def)
next
  case (Fire h)
  then show ?thesis using assms(3) by (simp add: fire_fields)
qed

lemma idle_after:
  "inv s \<Longrightarrow> history es s \<Longrightarrow> UUID_MAP s t = None
    \<Longrightarrow> Run t \<notin> set es \<Longrightarrow> RunTimer t \<notin> set es \<Longrightarrow> RunTimers \<notin> set es
    \<Longrightarrow> UUID_MAP (after es s) t = None"
proof (induction es arbitrary: s)
  case Nil
  then show ?case by simp
next
  case (Cons e es)
  have "UUID_MAP (step e s) t = None"
    using Cons.prems by (intro idle_step) auto
  moreover have "inv (step e s)" using Cons.prems by (simp add: inv_step)
  ultimately show ?case using Cons.IH [of "step e s"] Cons.prems by simp
qed

text \<open>
  \<open>stop()\<close> throws exactly when no handle is recorded for the instance, at once and with
  the world unchanged: on an instance that was never run and on one that was just stopped,
  and never while a native timer is armed for the instance.
\<close>

lemma stop_throws_iff_no_handle:
  assumes "history es initial"
  shows "(fst (stop t (after es initial)) = Inl TypeError) = (\<not> hasTimer t (after es initial)) \<and>
     (\<not> hasTimer t (after es initial) \<longrightarrow>
        stop t (after es initial) = (Inl TypeError, after es initial)) \<and>
     (Run t \<notin> set es \<and> RunTimer t \<notin> set es \<and> RunTimers \<notin> set es \<longrightarrow>
        fst (stop t (after es initial)) = Inl TypeError) \<and>
     (fst (stop t (after es initial)) = Inr () \<longrightarrow>
        fst (stop t (snd (stop t (after es initial)))) = Inl TypeError) \<and>
     (\<forall>h k. host_timers (after es initial) h = Some (k, t) \<longrightarrow>
        fst (stop t (after es initial)) = Inr ())"
proof -
  let ?s = "after es initial"
  have i: "inv ?s" using assms by (rule inv_reachable)
  have A: "(fst (stop t ?s) = Inl TypeError) = (\<not> hasTimer t ?s)"
    by (cases "UUID_MAP ?s t") (simp_all add: hasTimer_def stop_throws stop_fields)
  have B: "\<not> hasTimer t ?s \<longrightarrow> stop t ?s = (Inl TypeError, ?s)"
    by (simp add: hasTimer_def stop_throws)
  have C: "fst (stop t ?s) = Inl TypeError"
    if "Run t \<notin> set es \<and> RunTimer t \<notin> set es \<and> RunTimers \<notin> set es"
  proof -
    have "UUID_MAP ?s t = None"
      using that assms by (intro idle_after inv_initial) (simp_all add: initial_def)
    then show ?thesis by (simp add: stop_throws)
  qed
  have D: "fst (stop t (snd (stop t ?s))) = Inl TypeError" if "fst (stop t ?s) = Inr ()"
  proof (cases "UUID_MAP ?s t")
    case None
    then show ?thesis using that by (simp add: stop_throws)
  next
    case (Some h)
    then have "UUID_MAP (snd (stop t ?s)) t = None" by (simp add: stop_fields)
    then show ?thesis by (simp add: stop_throws)
  qed
  have E: "fst (stop t ?s) = Inr ()" if "host_timers ?s h = Some (k, t)" for h k
  proof -
    have "armed_ok ?s" using i by (simp add: inv_def)
    then have "UUID_MAP ?s t = Some h" using that by (rule armed_recorded)
    then show ?thesis by (simp add: stop_fields)
  qed
  show ?thesis using A B C D E by blast
qed

text \<open>
  Whenever \<open>stop()\<close> throws, nothing has been mutated: with no handle recorded it throws
  as its first action, and in a reachable world it does so on every instance that is not
  running.
\<close>

lemma stop_atomic_on_error:
  "(UUID_MAP s t = None \<longrightarrow> stop t s = (Inl TypeError, s)) \<and>
   (\<forall>e. fst (stop t s) = Inl e \<longrightarrow> snd (stop t s) = s) \<and>
   (history es initial \<and> \<not> isRunning (after es initial) t' \<longrightarrow>
      stop t' (after es initial) = (Inl TypeError, after es initial))"
proof -
  have A: "UUID_MAP s t = None \<longrightarrow> stop t s = (Inl TypeError, s)"
    by (simp add: stop_throws)
  have B: "\<forall>e. fst (stop t s) = Inl e \<longrightarrow> snd (stop t s) = s"
    by (cases "UUID_MAP s t") (simp_all add: stop_throws stop_fields)
  have C: "stop t' (after es initial) = (Inl TypeError, after es initial)"
    if "history es initial \<and> \<not> isRunning (after es initial) t'"
  proof -
    have "inv (after es initial)" using that by (simp add: inv_reachable)
    then have "UUID_MAP (after es initial) t' = None"
      using that by (simp add: inv_def running_ok_def)
    then show ?thesis by (rule stop_throws)
  qed
  show ?thesis using A B C by blast
qed

section \<open>Promises and firings of a one-shot instance\<close>

text \<open>
  The promises returned by \<open>run()\<close>, \<open>stop()\<close>, \<open>run()\<close> called one after the other on an
  instance with no pending completion (a repeating one may have one).
\<close>

lemma promises_across_stop_and_resume:
  assumes "history es initial"
    and "\<not> repeat (after es initial) t \<longrightarrow> PROMISE_RESOLVE_FUNCTION_MAP (after es initial) t = None"
    and "run t (after es initial) = (r1, s1)"
    and "stop t s1 = (r2, s2)"
    and "run t s2 = (r3, s3)"
  shows "r1 = Inr (next_promise (after es initial)) \<and> r2 = Inr () \<and>
     r3 = Inr (Suc (next_promise (after es initial))) \<and>
     \<not> resolved s1 (next_promise (after es initial)) \<and>
     (if repeat (after es initial) t
      then resolved s2 (next_promise (after es initial)) \<and>
           PROMISE_RESOLVE_FUNCTION_MAP s3 t = Some (Suc (next_promise (after es initial))) \<and>
           \<not> resolved s3 (Suc (next_promise (after es initial))) \<and>
           resolved (snd (stop t s3)) (Suc (next_promise (after es initial)))
      else \<not> resolved s2 (next_promise (after es initial)) \<and>
           PROMISE_RESOLVE_FUNCTION_MAP s3 t = Some (next_promise (after es initial)) \<and>
           \<not> resolved s3 (next_promise (after es initial)) \<and>
           resolved s3 (Suc (next_promise (after es initial))) \<and>
           host_timers s3 (Suc (next_uuid (after es initial))) = Some (Timeout, t) \<and>
           resolved (fire (Suc (next_uuid (after es initial))) s3)
             (next_promise (after es initial)))"
proof -
  let ?s = "after es initial"
  define u where "u = (if UUID_MAP ?s t = None then ?s else snd (stop t ?s))"
  define np where "np = next_promise ?s"
  define nu where "nu = next_uuid ?s"
  have i: "inv ?s" using assms(1) by (rule inv_reachable)
  then have po: "promise_ok ?s" and io: "interval_ok ?s"
    by (simp_all add: inv_def)
  have fresh: "\<not> resolved ?s np" "\<not> resolved ?s (Suc np)"
    using resolved_old [OF po, of np] resolved_old [OF po, of "Suc np"]
    by (auto simp add: np_def)
  have idle: "UUID_MAP u t = None"
    by (cases "UUID_MAP ?s t") (simp_all add: u_def stop_fields)
  have nopend: "PROMISE_RESOLVE_FUNCTION_MAP u t = None"
  proof (cases "UUID_MAP ?s t")
    case None
    then show ?thesis
      using assms(2) interval_pending [OF io, of t] by (auto simp add: u_def)
  next
    case (Some h)
    then show ?thesis using assms(2) by (simp add: u_def stop_fields)
  qed
  have same: "repeat u = repeat ?s" "next_promise u = np" "next_uuid u = nu"
    by (cases "UUID_MAP ?s t"; simp add: u_def np_def nu_def stop_fields)+
  have res_u: "\<not> resolved u np" "\<not> resolved u (Suc np)"
  proof -
    have "resolved u q \<Longrightarrow> resolved ?s q \<or> (\<exists>t'. PROMISE_RESOLVE_FUNCTION_MAP ?s t' = Some q)"
      for q
      by (cases "UUID_MAP ?s t")
        (auto simp add: u_def stop_fields split: option.splits if_splits)
    then show "\<not> resolved u np" "\<not> resolved u (Suc np)"
      using fresh pending_old [OF po] by (fastforce simp add: np_def)+
  qed
  have r: "run t ?s = run t u" unfolding u_def by (rule run_pre)
  note g = run_fields [OF idle]
  have s1: "s1 = snd (run t u)" and r1: "r1 = fst (run t u)"
    using assms(3) r by simp_all
  have R1: "r1 = Inr np" by (simp add: r1 g same)
  have U1: "UUID_MAP s1 t = Some nu" by (simp add: s1 g same)
  have P1: "PROMISE_RESOLVE_FUNCTION_MAP s1 t = Some np" by (simp add: s1 g nopend same)
  have N1: "\<not> resolved s1 np" "\<not> resolved s1 (Suc np)"
    using res_u by (simp_all add: s1 g nopend)
  have M1: "repeat s1 = repeat ?s" "next_promise s1 = Suc np" "next_uuid s1 = Suc nu"
    by (simp_all add: s1 g same)
  note f1 = stop_fields [OF U1]
  have s2: "s2 = snd (stop t s1)" and r2: "r2 = fst (stop t s1)"
    using assms(4) by simp_all
  have R2: "r2 = Inr ()" by (simp add: r2 f1)
  have U2: "UUID_MAP s2 t = None" by (simp add: s2 f1)
  have M2: "repeat s2 = repeat ?s" "next_promise s2 = Suc np" "next_uuid s2 = Suc nu"
    by (simp_all add: s2 f1 M1)
  have P2: "PROMISE_RESOLVE_FUNCTION_MAP s2 t = (if repeat ?s t then None else Some np)"
    by (simp add: s2 f1 M1 P1)
  have N2: "resolved s2 np = repeat ?s t" "\<not> resolved s2 (Suc np)"
    using N1 by (simp_all add: s2 f1 M1 P1)
  note g2 = run_fields [OF U2]
  have s3: "s3 = snd (run t s2)" and r3: "r3 = fst (run t s2)"
    using assms(5) by simp_all
  have R3: "r3 = Inr (Suc np)" by (simp add: r3 g2 M2)
  have U3: "UUID_MAP s3 t = Some (Suc nu)" by (simp add: s3 g2 M2)
  have M3: "repeat s3 = repeat ?s" by (simp add: s3 g2 M2)
  have P3: "PROMISE_RESOLVE_FUNCTION_MAP s3 t = Some (if repeat ?s t then Suc np else np)"
    by (simp add: s3 g2 P2 M2)
  have N3: "resolved s3 np = repeat ?s t" "resolved s3 (Suc np) = (\<not> repeat ?s t)"
    using N2 by (simp_all add: s3 g2 P2 M2)
  have H3: "host_timers s3 (Suc nu) = Some (if repeat ?s t then Interval else Timeout, t)"
    by (simp add: s3 g2 M2)
  note f3 = stop_fields [OF U3]
  show ?thesis
  proof (cases "repeat ?s t")
    case True
    have "resolved (snd (stop t s3)) (Suc np)"
      using True by (simp add: f3 P3 M3)
    then show ?thesis
      using True R1 R2 R3 N1 N2 P3 N3 by (simp add: np_def)
  next
    case False
    have "resolved (fire (Suc nu) s3) np"
      using False by (simp add: fire_fields H3 P3)
    then show ?thesis
      using False R1 R2 R3 N1 N2 P3 N3 H3 by (simp add: np_def nu_def)
  qed
qed

text \<open>
  When the armed native timer of a one-shot instance fires, the callback is invoked and
  then the pending completion is resolved and cleared. A \<open>run()\<close> that stores its resolve
  function (the instance has no pending completion) returns an unresolved promise, and
  at the event that resolves it the callback has been invoked exactly once since the
  call.
\<close>

lemma one_shot_fires_once:
  assumes "history es initial" and "\<not> repeat (after es initial) t"
  shows "(\<forall>h. host_timers (after es initial) h = Some (Timeout, t) \<longrightarrow>
        fire h (after es initial) =
          callPromiseResolveFunction t (callback t
            ((after es initial)\<lparr>host_timers := (host_timers (after es initial))(h := None)\<rparr>)) \<and>
        callback_calls (fire h (after es initial)) t = Suc (callback_calls (after es initial) t) \<and>
        PROMISE_RESOLVE_FUNCTION_MAP (fire h (after es initial)) t = None \<and>
        (\<exists>p. PROMISE_RESOLVE_FUNCTION_MAP (after es initial) t = Some p \<and>
             \<not> resolved (after es initial) p \<and> resolved (fire h (after es initial)) p)) \<and>
     (t < instances (after es initial) \<and>
      PROMISE_RESOLVE_FUNCTION_MAP (after es initial) t = None \<longrightarrow>
        fst (run t (after es initial)) = Inr (next_promise (after es initial)) \<and>
        \<not> resolved (snd (run t (after es initial))) (next_promise (after es initial)) \<and>
        (\<forall>es' e. history (es' @ [e]) (snd (run t (after es initial))) \<and>
           \<not> resolved (after es' (snd (run t (after es initial))))
               (next_promise (after es initial)) \<and>
           resolved (after (es' @ [e]) (snd (run t (after es initial))))
               (next_promise (after es initial)) \<longrightarrow>
           callback_calls (after (es' @ [e]) (snd (run t (after es initial)))) t
             = Suc (callback_calls (after es initial) t)))"
proof -
  let ?s = "after es initial"
  have i: "inv ?s" using assms(1) by (rule inv_reachable)
  then have po: "promise_ok ?s" and pe: "pending_ok ?s" by (simp_all add: inv_def)
  have A: "fire h ?s =
          callPromiseResolveFunction t (callback t
            (?s\<lparr>host_timers := (host_timers ?s)(h := None)\<rparr>)) \<and>
        callback_calls (fire h ?s) t = Suc (callback_calls ?s t) \<and>
        PROMISE_RESOLVE_FUNCTION_MAP (fire h ?s) t = None \<and>
        (\<exists>p. PROMISE_RESOLVE_FUNCTION_MAP ?s t = Some p \<and>
             \<not> resolved ?s p \<and> resolved (fire h ?s) p)"
    if a: "host_timers ?s h = Some (Timeout, t)" for h
  proof -
    obtain p where p: "PROMISE_RESOLVE_FUNCTION_MAP ?s t = Some p"
      using armed_pending [OF pe a] by blast
    have np: "\<not> resolved ?s p" using po p by (rule pending_unresolved)
    have e: "fire h ?s = callPromiseResolveFunction t (callback t
            (?s\<lparr>host_timers := (host_timers ?s)(h := None)\<rparr>))"
      using a by (simp add: fire_def)
    have "callback_calls (fire h ?s) t = Suc (callback_calls ?s t) \<and>
        PROMISE_RESOLVE_FUNCTION_MAP (fire h ?s) t = None \<and> resolved (fire h ?s) p"
      using a p by (simp add: fire_fields)
    then show ?thesis using e np p by blast
  qed
  have B: "fst (run t ?s) = Inr (next_promise ?s) \<and>
        \<not> resolved (snd (run t ?s)) (next_promise ?s) \<and>
        (\<forall>es' e. history (es' @ [e]) (snd (run t ?s)) \<and>
           \<not> resolved (after es' (snd (run t ?s))) (next_promise ?s) \<and>
           resolved (after (es' @ [e]) (snd (run t ?s))) (next_promise ?s) \<longrightarrow>
           callback_calls (after (es' @ [e]) (snd (run t ?s))) t = Suc (callback_calls ?s t))"
    if b: "t < instances ?s \<and> PROMISE_RESOLVE_FUNCTION_MAP ?s t = None"
  proof -
    have w: "waiting t (next_promise ?s) (callback_calls ?s t) (snd (run t ?s))"
      and r: "fst (run t ?s) = Inr (next_promise ?s)"
      using run_starts_waiting [OF i _ assms(2)] b by simp_all
    show ?thesis
      using r waiting_unresolved [OF w] waiting_resolution [OF w] by blast
  qed
  show ?thesis using A B by blast
qed

lemmas eval_defs = method_defs host_defs initial_def Let_def

section \<open>The claims\<close>

subsection \<open>The promises returned by run(), stop(), run()\<close>

text \<open>
  C1. The claim says that after \<open>run()\<close>, \<open>stop()\<close> before the one-shot has fired, and
  \<open>run()\<close> again, the promise of the second \<open>run()\<close> resolves together with the promise
  of the first, and not earlier. In the code the second \<open>run()\<close> finds the first resolve
  function still stored and calls its own resolve function at once (\<open>else resolve()\<close>):
  after \<open>new Timer(cb, 100, false)\<close>, \<open>run()\<close> (promise 0), \<open>stop()\<close> and \<open>run()\<close>
  (promise 1), promise 1 is resolved when the call returns, while the one-shot is armed,
  the callback has not run and promise 0 is unresolved; promise 0 resolves only when the
  native timer fires. The same happens when a repeating instance ticks and is run between
  the calls.
\<close>

theorem C1_second_handle_resolves_at_once:
  "history [New 100 False, Run 0, Stop 0, Run 0, Fire 2] initial \<and>
   fst (run 0 (after [New 100 False] initial)) = Inr 0 \<and>
   PROMISE_RESOLVE_FUNCTION_MAP (after [New 100 False, Run 0, Stop 0] initial) 0 = Some 0 \<and>
   \<not> resolved (after [New 100 False, Run 0, Stop 0] initial) 0 \<and>
   fst (run 0 (after [New 100 False, Run 0, Stop 0] initial)) = Inr 1 \<and>
   resolved (after [New 100 False, Run 0, Stop 0, Run 0] initial) 1 \<and>
   \<not> resolved (after [New 100 False, Run 0, Stop 0, Run 0] initial) 0 \<and>
   host_timers (after [New 100 False, Run 0, Stop 0, Run 0] initial) 2 = Some (Timeout, 0) \<and>
   callback_calls (after [New 100 False, Run 0, Stop 0, Run 0] initial) 0 = 0 \<and>
   resolved (after [New 100 False, Run 0, Stop 0, Run 0, Fire 2] initial) 0 \<and>
   history [New 100 False, New 50 True, Run 0, Run 1, Fire 2, Stop 0, Fire 2, Run 0] initial \<and>
   fst (run 0 (after [New 100 False, New 50 True, Run 0, Run 1, Fire 2, Stop 0, Fire 2] initial))
     = Inr 2 \<and>
   resolved (after [New 100 False, New 50 True, Run 0, Run 1, Fire 2, Stop 0, Fire 2, Run 0]
     initial) 2 \<and>
   \<not> resolved (after [New 100 False, New 50 True, Run 0, Run 1, Fire 2, Stop 0, Fire 2, Run 0]
     initial) 0 \<and>
   callback_calls (after [New 100 False, New 50 True, Run 0, Run 1, Fire 2, Stop 0, Fire 2, Run 0]
     initial) 0 = 0"
  by (simp add: eval_defs)

subsection \<open>run() on an instance with an armed native timer\<close>

text \<open>
  C2, as stated, fails for a repeating instance: \<open>run()\<close> calls \<open>stop()\<close>, and
  \<open>stopInterval\<close> calls the pending resolve function and deletes it. After
  \<open>new Timer(cb, 100, true)\<close> and \<open>run()\<close>, promise 0 is pending and unresolved and the
  interval is armed; a second \<open>run()\<close> leaves promise 0 resolved and stores the resolve
  function of a new promise.
\<close>

theorem C2_run_while_armed_counterexample:
  "host_timers (after [New 100 True, Run 0] initial) 1 = Some (Interval, 0) \<and>
   PROMISE_RESOLVE_FUNCTION_MAP (after [New 100 True, Run 0] initial) 0 = Some 0 \<and>
   \<not> resolved (after [New 100 True, Run 0] initial) 0 \<and>
   resolved (snd (run 0 (after [New 100 True, Run 0] initial))) 0 \<and>
   PROMISE_RESOLVE_FUNCTION_MAP (snd (run 0 (after [New 100 True, Run 0] initial))) 0 = Some 1"
  by (simp add: eval_defs)

text \<open>
  C2, amended. On an instance with an armed native timer (it then has a pending,
  unresolved completion) \<open>run()\<close> disarms that native timer and arms a new one of the same
  kind under a fresh handle, and the instance is running. When the instance is not
  repeating, the pending completion stays pending and unresolved. When it is repeating,
  the internal stop resolves the pending completion, and \<open>run()\<close> stores the resolve
  function of the promise it returns, which is unresolved.
\<close>

theorem C2_run_while_armed:
  assumes "history es initial" and "host_timers (after es initial) h = Some (k, t)"
  shows "fst (run t (after es initial)) = Inr (next_promise (after es initial)) \<and>
     host_timers (snd (run t (after es initial))) h = None \<and>
     host_timers (snd (run t (after es initial))) (next_uuid (after es initial)) = Some (k, t) \<and>
     UUID_MAP (snd (run t (after es initial))) t = Some (next_uuid (after es initial)) \<and>
     isRunning (snd (run t (after es initial))) t \<and>
     (\<exists>p. PROMISE_RESOLVE_FUNCTION_MAP (after es initial) t = Some p \<and>
          \<not> resolved (after es initial) p \<and>
          (if repeat (after es initial) t
           then resolved (snd (run t (after es initial))) p \<and>
                PROMISE_RESOLVE_FUNCTION_MAP (snd (run t (after es initial))) t
                  = Some (next_promise (after es initial)) \<and>
                \<not> resolved (snd (run t (after es initial))) (next_promise (after es initial))
           else \<not> resolved (snd (run t (after es initial))) p \<and>
                PROMISE_RESOLVE_FUNCTION_MAP (snd (run t (after es initial))) t = Some p))"
proof -
  let ?s = "after es initial"
  let ?u = "snd (stop t ?s)"
  have i: "inv ?s" using assms(1) by (rule inv_reachable)
  then have a: "armed_ok ?s" and po: "promise_ok ?s" and pe: "pending_ok ?s" and uo: "uuid_ok ?s"
    by (simp_all add: inv_def)
  have u: "UUID_MAP ?s t = Some h" using a assms(2) by (rule armed_recorded)
  have kind: "(k = Interval) = repeat ?s t" using a assms(2) by (rule armed_kind)
  have hk: "k = (if repeat ?s t then Interval else Timeout)"
    using kind by (cases k) auto
  note f = stop_fields [OF u]
  have idle: "UUID_MAP ?u t = None" by (simp add: f)
  note g = run_fields [OF idle]
  have r: "run t ?s = run t ?u" using u by (rule run_restart)
  obtain p where p: "PROMISE_RESOLVE_FUNCTION_MAP ?s t = Some p"
    using armed_pending [OF pe assms(2)] by blast
  have np: "\<not> resolved ?s p" using po p by (rule pending_unresolved)
  have pold: "p \<noteq> next_promise ?s" using pending_old [OF po p] by simp
  have hold: "h \<noteq> next_uuid ?s" using handle_old [OF uo u] by simp
  have fresh: "\<not> resolved ?s (next_promise ?s)"
    using resolved_old [OF po, of "next_promise ?s"] by auto
  show ?thesis
    using p np pold hold fresh hk by (simp add: r g f)
qed

theorem C2_run_while_armed_witness:
  "(history [New 100 False, Run 0] initial \<and>
    host_timers (after [New 100 False, Run 0] initial) 1 = Some (Timeout, 0) \<and>
    host_timers (snd (run 0 (after [New 100 False, Run 0] initial))) 1 = None \<and>
    host_timers (snd (run 0 (after [New 100 False, Run 0] initial))) 2 = Some (Timeout, 0) \<and>
    PROMISE_RESOLVE_FUNCTION_MAP (after [New 100 False, Run 0] initial) 0 = Some 0 \<and>
    \<not> resolved (snd (run 0 (after [New 100 False, Run 0] initial))) 0 \<and>
    PROMISE_RESOLVE_FUNCTION_MAP (snd (run 0 (after [New 100 False, Run 0] initial))) 0
      = Some 0) \<and>
   (history [New 100 True, Run 0] initial \<and>
    host_timers (after [New 100 True, Run 0] initial) 1 = Some (Interval, 0) \<and>
    host_timers (snd (run 0 (after [New 100 True, Run 0] initial))) 1 = None \<and>
    host_timers (snd (run 0 (after [New 100 True, Run 0] initial))) 2 = Some (Interval, 0) \<and>
    PROMISE_RESOLVE_FUNCTION_MAP (after [New 100 True, Run 0] initial) 0 = Some 0 \<and>
    resolved (snd (run 0 (after [New 100 True, Run 0] initial))) 0 \<and>
    PROMISE_RESOLVE_FUNCTION_MAP (snd (run 0 (after [New 100 True, Run 0] initial))) 0
      = Some 1)"
proof -
  have h1: "history [New 100 False, Run 0] initial"
    and a1: "host_timers (after [New 100 False, Run 0] initial) 1 = Some (Timeout, 0)"
    and r1: "\<not> repeat (after [New 100 False, Run 0] initial) 0"
    and p1: "PROMISE_RESOLVE_FUNCTION_MAP (after [New 100 False, Run 0] initial) 0 = Some 0"
    and n1: "next_uuid (after [New 100 False, Run 0] initial) = 2"
    by (simp_all add: eval_defs)
  have h2: "history [New 100 True, Run 0] initial"
    and a2: "host_timers (after [New 100 True, Run 0] initial) 1 = Some (Interval, 0)"
    and r2: "repeat (after [New 100 True, Run 0] initial) 0"
    and p2: "PROMISE_RESOLVE_FUNCTION_MAP (after [New 100 True, Run 0] initial) 0 = Some 0"
    and n2: "next_uuid (after [New 100 True, Run 0] initial) = 2"
    and m2: "next_promise (after [New 100 True, Run 0] initial) = 1"
    by (simp_all add: eval_defs)
  show ?thesis
    using C2_run_while_armed [OF h1 a1] C2_run_while_armed [OF h2 a2]
      h1 a1 r1 p1 n1 h2 a2 r2 p2 n2 m2
    by simp
qed

subsection \<open>A one-shot timer that has fired\<close>

text \<open>
  C3. The claim says that a one-shot instance whose native timer fires goes from Running
  to Idle. In the code the closure given to \<open>setTimeout\<close> calls the callback and the
  resolve function and nothing else: after \<open>new Timer(cb, 100, false)\<close>, \<open>run()\<close> and the
  firing of the native timer, no native timer is armed any more, the callback has run once
  and the promise is resolved, but \<open>isRunning\<close> is still true and \<open>UUID_MAP\<close> still holds
  the handle of the timer that fired, so that \<open>hasTimer\<close> is still true.
\<close>

theorem C3_fired_one_shot_stays_running:
  "host_timers (after [New 100 False, Run 0] initial) 1 = Some (Timeout, 0) \<and>
   isRunning (after [New 100 False, Run 0, Fire 1] initial) 0 \<and>
   UUID_MAP (after [New 100 False, Run 0, Fire 1] initial) 0 = Some 1 \<and>
   host_timers (after [New 100 False, Run 0, Fire 1] initial) = Map.empty \<and>
   callback_calls (after [New 100 False, Run 0, Fire 1] initial) 0 = 1 \<and>
   resolved (after [New 100 False, Run 0, Fire 1] initial) 0 \<and>
   hasTimer 0 (after [New 100 False, Run 0, Fire 1] initial)"
  by (simp add: eval_defs)

subsection \<open>When stop() throws\<close>

text \<open>
  C4. The claim says that \<open>stop()\<close> throws exactly when no native timer is armed for the
  instance. \<open>stop()\<close> tests \<open>hasTimer\<close>, and the handle of a one-shot timer stays in
  \<open>UUID_MAP\<close> after the timer has fired: after \<open>new Timer(cb, 100, false)\<close>, \<open>run()\<close> and
  the firing of the native timer, no native timer is armed, and \<open>stop()\<close> returns
  normally.
\<close>

theorem C4_stop_after_fired_one_shot:
  "history [New 100 False, Run 0, Fire 1] initial \<and>
   host_timers (after [New 100 False, Run 0, Fire 1] initial) = Map.empty \<and>
   fst (stop 0 (after [New 100 False, Run 0, Fire 1] initial)) = Inr ()"
  by (simp add: eval_defs)

subsection \<open>stopTimers()\<close>

text \<open>
  C5. In every reachable world \<open>stopTimers()\<close> does what calling \<open>stop()\<close> on exactly the
  registered instances with \<open>isRunning\<close> true, in registry order, does; it returns
  normally (no TypeError); afterwards no registered instance is running, has a handle or
  an armed native timer; and every instance that was not both registered and running is
  left untouched.
\<close>

theorem C5_stopTimers:
  assumes "history es initial"
  shows "stopTimers (after es initial)
       = forEach stop (filter (isRunning (after es initial)) (TIMERS (after es initial)))
           (after es initial) \<and>
     fst (stopTimers (after es initial)) = Inr () \<and>
     (\<forall>t \<in> set (TIMERS (after es initial)).
        \<not> isRunning (snd (stopTimers (after es initial))) t \<and>
        UUID_MAP (snd (stopTimers (after es initial))) t = None \<and>
        (\<forall>h k. host_timers (snd (stopTimers (after es initial))) h \<noteq> Some (k, t))) \<and>
     TIMERS (snd (stopTimers (after es initial))) = TIMERS (after es initial) \<and>
     (\<forall>t. \<not> (t \<in> set (TIMERS (after es initial)) \<and> isRunning (after es initial) t) \<longrightarrow>
        untouched t (after es initial) (snd (stopTimers (after es initial))))"
proof -
  let ?s = "after es initial"
  have i: "inv ?s" using assms by (rule inv_reachable)
  then have d: "distinct (TIMERS ?s)" by (simp add: inv_def registry_ok_def)
  have i': "inv (snd (stopTimers ?s))" using i by (rule inv_stopTimers)
  have "stopTimers ?s = forEach stop (filter (isRunning ?s) (TIMERS ?s)) ?s"
    unfolding stopTimers_def using i d by (rule stopTimers_as_stops)
  moreover have "fst (stopTimers ?s) = Inr ()"
    using stopTimers_clears [OF i] by simp
  moreover have "\<not> isRunning (snd (stopTimers ?s)) t \<and>
        UUID_MAP (snd (stopTimers ?s)) t = None \<and>
        (\<forall>h k. host_timers (snd (stopTimers ?s)) h \<noteq> Some (k, t))"
    if "t \<in> set (TIMERS ?s)" for t
  proof -
    have "UUID_MAP (snd (stopTimers ?s)) t = None"
      using stopTimers_clears [OF i] that by simp
    then show ?thesis using idle_facts [OF i'] by simp
  qed
  moreover have "TIMERS (snd (stopTimers ?s)) = TIMERS ?s"
    by (simp add: stopTimers_def TIMERS_forEach_stopTimer)
  moreover have "untouched t ?s (snd (stopTimers ?s))"
    if "\<not> (t \<in> set (TIMERS ?s) \<and> isRunning ?s t)" for t
    using that i by (intro stopTimers_untouched) auto
  ultimately show ?thesis by blast
qed

theorem C5_stopTimers_witness:
  "history [New 100 True, New 50 False, New 70 False, Run 0, Run 2] initial \<and>
   TIMERS (after [New 100 True, New 50 False, New 70 False, Run 0, Run 2] initial) = [0, 1, 2] \<and>
   isRunning (after [New 100 True, New 50 False, New 70 False, Run 0, Run 2] initial) 0 \<and>
   \<not> isRunning (after [New 100 True, New 50 False, New 70 False, Run 0, Run 2] initial) 1 \<and>
   isRunning (after [New 100 True, New 50 False, New 70 False, Run 0, Run 2] initial) 2 \<and>
   fst (stopTimers (after [New 100 True, New 50 False, New 70 False, Run 0, Run 2] initial))
     = Inr () \<and>
   \<not> isRunning
       (snd (stopTimers (after [New 100 True, New 50 False, New 70 False, Run 0, Run 2] initial)))
       0 \<and>
   \<not> isRunning
       (snd (stopTimers (after [New 100 True, New 50 False, New 70 False, Run 0, Run 2] initial)))
       2 \<and>
   untouched 1 (after [New 100 True, New 50 False, New 70 False, Run 0, Run 2] initial)
     (snd (stopTimers (after [New 100 True, New 50 False, New 70 False, Run 0, Run 2] initial)))"
proof -
  let ?s = "after [New 100 True, New 50 False, New 70 False, Run 0, Run 2] initial"
  have h: "history [New 100 True, New 50 False, New 70 False, Run 0, Run 2] initial"
    and T: "TIMERS ?s = [0, 1, 2]"
    and r: "isRunning ?s 0" "\<not> isRunning ?s 1" "isRunning ?s 2"
    by (simp_all add: eval_defs)
  note c = C5_stopTimers [OF h]
  have a: "fst (stopTimers ?s) = Inr ()" using c by blast
  have b: "\<forall>t \<in> set (TIMERS ?s). \<not> isRunning (snd (stopTimers ?s)) t" using c by blast
  have b0: "\<not> isRunning (snd (stopTimers ?s)) 0" using b unfolding T by simp
  have b2: "\<not> isRunning (snd (stopTimers ?s)) 2" using b unfolding T by simp
  have "\<forall>t. \<not> (t \<in> set (TIMERS ?s) \<and> isRunning ?s t) \<longrightarrow>
        untouched t ?s (snd (stopTimers ?s))" using c by blast
  then have u: "untouched 1 ?s (snd (stopTimers ?s))" using r(2) by blast
  show ?thesis using h T r a b0 b2 u by blast
qed

subsection \<open>stop() on an instance with an armed native timer\<close>

text \<open>
  C6. On an instance with an armed native timer \<open>stop()\<close> succeeds, marks the instance
  not running and disarms the native timer (none stays armed for the instance). Such an
  instance has a pending, unresolved completion; \<open>stop()\<close> resolves it and clears it when
  the instance is repeating, and leaves it pending and unresolved when it is not.
\<close>

theorem C6_stop_disarms_and_resolves_only_repeating:
  assumes "history es initial" and "host_timers (after es initial) h = Some (k, t)"
  shows "fst (stop t (after es initial)) = Inr () \<and>
     \<not> isRunning (snd (stop t (after es initial))) t \<and>
     UUID_MAP (snd (stop t (after es initial))) t = None \<and>
     (\<forall>h' k'. host_timers (snd (stop t (after es initial))) h' \<noteq> Some (k', t)) \<and>
     (\<exists>p. PROMISE_RESOLVE_FUNCTION_MAP (after es initial) t = Some p \<and>
          \<not> resolved (after es initial) p \<and>
          (if repeat (after es initial) t
           then resolved (snd (stop t (after es initial))) p \<and>
                PROMISE_RESOLVE_FUNCTION_MAP (snd (stop t (after es initial))) t = None
           else \<not> resolved (snd (stop t (after es initial))) p \<and>
                PROMISE_RESOLVE_FUNCTION_MAP (snd (stop t (after es initial))) t = Some p))"
proof -
  let ?s = "after es initial"
  have i: "inv ?s" using assms(1) by (rule inv_reachable)
  then have a: "armed_ok ?s" by (simp add: inv_def)
  have u: "UUID_MAP ?s t = Some h" using a assms(2) by (rule armed_recorded)
  note f = stop_fields [OF u]
  obtain p where p: "PROMISE_RESOLVE_FUNCTION_MAP ?s t = Some p"
    using i assms(2) by (auto simp add: inv_def dest: armed_pending)
  have np: "\<not> resolved ?s p"
    using i p by (auto simp add: inv_def dest: pending_unresolved)
  have gone: "host_timers (snd (stop t ?s)) h' \<noteq> Some (k', t)" for h' k'
    using armed_unique [OF a assms(2), of h' k'] by (auto simp add: f)
  show ?thesis
    using p np gone by (simp add: f)
qed

theorem C6_stop_disarms_and_resolves_only_repeating_witness:
  "(history [New 100 True, Run 0] initial \<and>
    host_timers (after [New 100 True, Run 0] initial) 1 = Some (Interval, 0) \<and>
    fst (stop 0 (after [New 100 True, Run 0] initial)) = Inr () \<and>
    \<not> isRunning (snd (stop 0 (after [New 100 True, Run 0] initial))) 0 \<and>
    PROMISE_RESOLVE_FUNCTION_MAP (after [New 100 True, Run 0] initial) 0 = Some 0 \<and>
    resolved (snd (stop 0 (after [New 100 True, Run 0] initial))) 0 \<and>
    PROMISE_RESOLVE_FUNCTION_MAP (snd (stop 0 (after [New 100 True, Run 0] initial))) 0 = None) \<and>
   (history [New 100 False, Run 0] initial \<and>
    host_timers (after [New 100 False, Run 0] initial) 1 = Some (Timeout, 0) \<and>
    fst (stop 0 (after [New 100 False, Run 0] initial)) = Inr () \<and>
    \<not> isRunning (snd (stop 0 (after [New 100 False, Run 0] initial))) 0 \<and>
    PROMISE_RESOLVE_FUNCTION_MAP (after [New 100 False, Run 0] initial) 0 = Some 0 \<and>
    \<not> resolved (snd (stop 0 (after [New 100 False, Run 0] initial))) 0 \<and>
    PROMISE_RESOLVE_FUNCTION_MAP (snd (stop 0 (after [New 100 False, Run 0] initial))) 0
      = Some 0)"
proof -
  have h1: "history [New 100 True, Run 0] initial"
    and a1: "host_timers (after [New 100 True, Run 0] initial) 1 = Some (Interval, 0)"
    and r1: "repeat (after [New 100 True, Run 0] initial) 0"
    and p1: "PROMISE_RESOLVE_FUNCTION_MAP (after [New 100 True, Run 0] initial) 0 = Some 0"
    by (simp_all add: eval_defs)
  have h2: "history [New 100 False, Run 0] initial"
    and a2: "host_timers (after [New 100 False, Run 0] initial) 1 = Some (Timeout, 0)"
    and r2: "\<not> repeat (after [New 100 False, Run 0] initial) 0"
    and p2: "PROMISE_RESOLVE_FUNCTION_MAP (after [New 100 False, Run 0] initial) 0 = Some 0"
    by (simp_all add: eval_defs)
  show ?thesis
    using C6_stop_disarms_and_resolves_only_repeating [OF h1 a1]
      C6_stop_disarms_and_resolves_only_repeating [OF h2 a2]
      h1 a1 r1 p1 h2 a2 r2 p2
    by simp
qed

subsection \<open>A one-shot instance fires\<close>

text \<open>
  C7. The claim says that calling \<open>run()\<close> on a one-shot instance and awaiting the promise
  it returns results in the callback having been invoked exactly once. In the code a
  \<open>run()\<close> that finds a resolve function already stored resolves the promise it returns
  at once: after \<open>new Timer(cb, 100, false)\<close>, \<open>run()\<close> and \<open>stop()\<close>, the second \<open>run()\<close>
  returns promise 1, which is resolved when the call returns, and the callback has not
  been invoked; the same holds for a second \<open>run()\<close> without a \<open>stop()\<close> in between.
\<close>

theorem C7_resumed_run_resolves_without_callback:
  "history [New 100 False, Run 0, Stop 0, Run 0] initial \<and>
   \<not> repeat (after [New 100 False, Run 0, Stop 0] initial) 0 \<and>
   fst (run 0 (after [New 100 False, Run 0, Stop 0] initial)) = Inr 1 \<and>
   resolved (snd (run 0 (after [New 100 False, Run 0, Stop 0] initial))) 1 \<and>
   callback_calls (snd (run 0 (after [New 100 False, Run 0, Stop 0] initial))) 0 = 0 \<and>
   history [New 100 False, Run 0, Run 0] initial \<and>
   fst (run 0 (after [New 100 False, Run 0] initial)) = Inr 1 \<and>
   resolved (snd (run 0 (after [New 100 False, Run 0] initial))) 1 \<and>
   callback_calls (snd (run 0 (after [New 100 False, Run 0] initial))) 0 = 0"
  by (simp add: eval_defs)

subsection \<open>clearTimers() and instances out of the registry\<close>

text \<open>
  C8. In every reachable world \<open>clearTimers()\<close> returns normally and leaves the registry
  empty, and every instance that was registered is then not running, has no handle and
  no armed native timer. An instance that is not in the registry is left untouched by
  \<open>runTimers()\<close>, \<open>stopTimers()\<close> and \<open>clearTimers()\<close>, and no later call or firing puts
  it back into the registry.
\<close>

theorem C8_clearTimers:
  assumes "history es initial"
  shows "fst (clearTimers (after es initial)) = Inr () \<and>
     TIMERS (snd (clearTimers (after es initial))) = [] \<and>
     (\<forall>t \<in> set (TIMERS (after es initial)).
        \<not> isRunning (snd (clearTimers (after es initial))) t \<and>
        UUID_MAP (snd (clearTimers (after es initial))) t = None \<and>
        (\<forall>h k. host_timers (snd (clearTimers (after es initial))) h \<noteq> Some (k, t))) \<and>
     (\<forall>t. t \<notin> set (TIMERS (after es initial)) \<longrightarrow>
        untouched t (after es initial) (snd (runTimers (after es initial))) \<and>
        untouched t (after es initial) (snd (stopTimers (after es initial))) \<and>
        untouched t (after es initial) (snd (clearTimers (after es initial)))) \<and>
     (\<forall>t es'. t < instances (after es initial) \<and> t \<notin> set (TIMERS (after es initial)) \<and>
        history es' (after es initial) \<longrightarrow> t \<notin> set (TIMERS (after es' (after es initial))))"
proof -
  let ?s = "after es initial"
  have i: "inv ?s" using assms by (rule inv_reachable)
  have i': "inv (snd (clearTimers ?s))" using i by (rule inv_clearTimers)
  have "fst (clearTimers ?s) = Inr ()"
    using clearTimers_clears [OF i] by simp
  moreover have "TIMERS (snd (clearTimers ?s)) = []"
    using TIMERS_forEach_clearTimer [OF i registry_bound [OF i]]
    by (simp add: clearTimers_def)
  moreover have "\<not> isRunning (snd (clearTimers ?s)) t \<and>
        UUID_MAP (snd (clearTimers ?s)) t = None \<and>
        (\<forall>h k. host_timers (snd (clearTimers ?s)) h \<noteq> Some (k, t))"
    if "t \<in> set (TIMERS ?s)" for t
  proof -
    have "UUID_MAP (snd (clearTimers ?s)) t = None"
      using clearTimers_clears [OF i] that by simp
    then show ?thesis using idle_facts [OF i'] by simp
  qed
  moreover have "untouched t ?s (snd (runTimers ?s)) \<and>
        untouched t ?s (snd (stopTimers ?s)) \<and>
        untouched t ?s (snd (clearTimers ?s))"
    if "t \<notin> set (TIMERS ?s)" for t
    using that i
    by (simp add: runTimers_untouched stopTimers_untouched clearTimers_untouched)
  moreover have "t \<notin> set (TIMERS (after es' ?s))"
    if "t < instances ?s \<and> t \<notin> set (TIMERS ?s) \<and> history es' ?s" for t es'
    using that i by (simp add: unregistered_after)
  ultimately show ?thesis by blast
qed

theorem C8_clearTimers_witness:
  "history [New 100 True, New 50 False, New 70 False, Run 0, Run 1, Clear 1] initial \<and>
   TIMERS (after [New 100 True, New 50 False, New 70 False, Run 0, Run 1, Clear 1] initial)
     = [0, 2] \<and>
   fst (clearTimers
     (after [New 100 True, New 50 False, New 70 False, Run 0, Run 1, Clear 1] initial))
     = Inr () \<and>
   TIMERS (snd (clearTimers
     (after [New 100 True, New 50 False, New 70 False, Run 0, Run 1, Clear 1] initial))) = [] \<and>
   \<not> isRunning (snd (clearTimers
     (after [New 100 True, New 50 False, New 70 False, Run 0, Run 1, Clear 1] initial))) 0 \<and>
   untouched 1
     (after [New 100 True, New 50 False, New 70 False, Run 0, Run 1, Clear 1] initial)
     (snd (runTimers
       (after [New 100 True, New 50 False, New 70 False, Run 0, Run 1, Clear 1] initial))) \<and>
   history [StopTimers, RunTimers]
     (after [New 100 True, New 50 False, New 70 False, Run 0, Run 1, Clear 1] initial) \<and>
   1 \<notin> set (TIMERS (after [StopTimers, RunTimers]
     (after [New 100 True, New 50 False, New 70 False, Run 0, Run 1, Clear 1] initial)))"
proof -
  let ?s = "after [New 100 True, New 50 False, New 70 False, Run 0, Run 1, Clear 1] initial"
  have h: "history [New 100 True, New 50 False, New 70 False, Run 0, Run 1, Clear 1] initial"
    and T: "TIMERS ?s = [0, 2]"
    and n: "1 < instances ?s"
    and h': "history [StopTimers, RunTimers] ?s"
    by (simp_all add: eval_defs)
  note c = C8_clearTimers [OF h]
  have a: "fst (clearTimers ?s) = Inr ()" and e: "TIMERS (snd (clearTimers ?s)) = []"
    using c by blast+
  have "\<forall>t \<in> set (TIMERS ?s). \<not> isRunning (snd (clearTimers ?s)) t" using c by blast
  then have b0: "\<not> isRunning (snd (clearTimers ?s)) 0" unfolding T by simp
  have m: "1 \<notin> set (TIMERS ?s)" unfolding T by simp
  have "\<forall>t. t \<notin> set (TIMERS ?s) \<longrightarrow> untouched t ?s (snd (runTimers ?s))" using c by blast
  then have u: "untouched 1 ?s (snd (runTimers ?s))" using m by blast
  have "\<forall>t es'. t < instances ?s \<and> t \<notin> set (TIMERS ?s) \<and> history es' ?s \<longrightarrow>
      t \<notin> set (TIMERS (after es' ?s))" using c by blast
  then have k: "1 \<notin> set (TIMERS (after [StopTimers, RunTimers] ?s))"
    using n m h' by blast
  show ?thesis using h T a e b0 u h' k by blast
qed

subsection \<open>stop() with no native timer armed\<close>

text \<open>
  C9. The claim says that on every instance with no armed native timer \<open>stop()\<close> throws
  before any mutation and leaves the running flag and the handle as they were. After
  \<open>new Timer(cb, 100, false)\<close>, \<open>run()\<close> and the firing of the native timer, no native
  timer is armed, \<open>isRunning\<close> is true and \<open>UUID_MAP\<close> holds the handle of the timer that
  fired; \<open>stop()\<close> then does not throw, and it sets \<open>isRunning\<close> to false and deletes the
  handle.
\<close>

theorem C9_stop_after_fired_one_shot_mutates:
  "history [New 100 False, Run 0, Fire 1] initial \<and>
   host_timers (after [New 100 False, Run 0, Fire 1] initial) = Map.empty \<and>
   isRunning (after [New 100 False, Run 0, Fire 1] initial) 0 \<and>
   UUID_MAP (after [New 100 False, Run 0, Fire 1] initial) 0 = Some 1 \<and>
   fst (stop 0 (after [New 100 False, Run 0, Fire 1] initial)) = Inr () \<and>
   \<not> isRunning (snd (stop 0 (after [New 100 False, Run 0, Fire 1] initial))) 0 \<and>
   UUID_MAP (snd (stop 0 (after [New 100 False, Run 0, Fire 1] initial))) 0 = None"
  by (simp add: eval_defs)

subsection \<open>clear() and a pending completion\<close>

text \<open>
  C10, as stated, fails: \<open>clear()\<close> deletes the instance from \<open>TIMERS\<close> and \<open>UUID_MAP\<close>
  but leaves its resolve function in \<open>PROMISE_RESOLVE_FUNCTION_MAP\<close>, and the object can
  still be used. After \<open>new Timer(cb, 100, false)\<close>, \<open>run()\<close> (promise 0) and \<open>clear()\<close>,
  promise 0 is unresolved; a further \<open>run()\<close> on the cleared instance arms a timeout, and
  when it fires promise 0 is resolved.
\<close>

theorem C10_cleared_completion_counterexample:
  "\<not> repeat (after [New 100 False, Run 0] initial) 0 \<and>
   PROMISE_RESOLVE_FUNCTION_MAP (after [New 100 False, Run 0] initial) 0 = Some 0 \<and>
   \<not> resolved (after [New 100 False, Run 0, Clear 0] initial) 0 \<and>
   history [New 100 False, Run 0, Clear 0, Run 0, Fire 2] initial \<and>
   resolved (after [New 100 False, Run 0, Clear 0, Run 0, Fire 2] initial) 0"
  by (simp add: eval_defs)

text \<open>
  C10, amended. \<open>clear()\<close> never resolves the pending completion of a one-shot instance:
  in a reachable world, for a one-shot instance with a pending completion (idle or
  running), \<open>clear()\<close> returns normally, the completion is still stored and unresolved,
  the instance is out of the registry with no handle and no armed native timer, and the
  completion stays unresolved along every later history in which \<open>run()\<close> is not called
  on the cleared instance.
\<close>

theorem C10_clear_leaves_completion_pending:
  assumes "history es initial" and "\<not> repeat (after es initial) t"
    and "t < instances (after es initial)"
    and "PROMISE_RESOLVE_FUNCTION_MAP (after es initial) t = Some p"
  shows "fst (clear t (after es initial)) = Inr () \<and>
     \<not> resolved (after es initial) p \<and>
     \<not> resolved (snd (clear t (after es initial))) p \<and>
     PROMISE_RESOLVE_FUNCTION_MAP (snd (clear t (after es initial))) t = Some p \<and>
     t \<notin> set (TIMERS (snd (clear t (after es initial)))) \<and>
     UUID_MAP (snd (clear t (after es initial))) t = None \<and>
     (\<forall>h k. host_timers (snd (clear t (after es initial))) h \<noteq> Some (k, t)) \<and>
     (\<forall>es'. history es' (snd (clear t (after es initial))) \<and>
        Run t \<notin> set es' \<and> RunTimer t \<notin> set es' \<longrightarrow>
        \<not> resolved (after es' (snd (clear t (after es initial)))) p \<and>
        PROMISE_RESOLVE_FUNCTION_MAP (after es' (snd (clear t (after es initial)))) t = Some p)"
proof -
  let ?s = "after es initial"
  let ?c = "snd (clear t ?s)"
  have i: "inv ?s" using assms(1) by (rule inv_reachable)
  have c: "cleared t p ?c" and r: "fst (clear t ?s) = Inr ()"
    using clear_makes_cleared [OF i assms(3) assms(2) assms(4)] by simp_all
  have "\<not> resolved ?s p"
    using i assms(4) by (auto simp add: inv_def dest: pending_unresolved)
  moreover have "\<not> resolved ?c p" using c by (rule cleared_unresolved)
  moreover have "PROMISE_RESOLVE_FUNCTION_MAP ?c t = Some p"
    and "t \<notin> set (TIMERS ?c)" and u: "UUID_MAP ?c t = None" and ic: "inv ?c"
    using c by (simp_all add: cleared_def)
  moreover have "host_timers ?c h \<noteq> Some (k, t)" for h k
    using idle_facts(2) [OF ic u] .
  moreover have "\<not> resolved (after es' ?c) p \<and>
        PROMISE_RESOLVE_FUNCTION_MAP (after es' ?c) t = Some p"
    if "history es' ?c \<and> Run t \<notin> set es' \<and> RunTimer t \<notin> set es'" for es'
  proof -
    have "cleared t p (after es' ?c)" using c that by (simp add: cleared_after)
    then show ?thesis using cleared_unresolved by (simp add: cleared_def)
  qed
  ultimately show ?thesis using r by blast
qed

theorem C10_clear_leaves_completion_pending_witness:
  "history [New 100 False, New 50 True, Run 0, Run 1] initial \<and>
   \<not> repeat (after [New 100 False, New 50 True, Run 0, Run 1] initial) 0 \<and>
   0 < instances (after [New 100 False, New 50 True, Run 0, Run 1] initial) \<and>
   PROMISE_RESOLVE_FUNCTION_MAP (after [New 100 False, New 50 True, Run 0, Run 1] initial) 0
     = Some 0 \<and>
   fst (clear 0 (after [New 100 False, New 50 True, Run 0, Run 1] initial)) = Inr () \<and>
   \<not> resolved (snd (clear 0 (after [New 100 False, New 50 True, Run 0, Run 1] initial))) 0 \<and>
   history [Fire 1, Fire 2, StopTimers, RunTimers, Stop 0, Clear 0, ClearTimers]
     (snd (clear 0 (after [New 100 False, New 50 True, Run 0, Run 1] initial))) \<and>
   \<not> resolved (after [Fire 1, Fire 2, StopTimers, RunTimers, Stop 0, Clear 0, ClearTimers]
     (snd (clear 0 (after [New 100 False, New 50 True, Run 0, Run 1] initial)))) 0"
proof -
  let ?s = "after [New 100 False, New 50 True, Run 0, Run 1] initial"
  let ?es = "[Fire 1, Fire 2, StopTimers, RunTimers, Stop 0, Clear 0, ClearTimers]"
  have h: "history [New 100 False, New 50 True, Run 0, Run 1] initial"
    and k: "\<not> repeat ?s 0" and n: "0 < instances ?s"
    and q: "PROMISE_RESOLVE_FUNCTION_MAP ?s 0 = Some 0"
    by (simp_all add: eval_defs)
  note T = C10_clear_leaves_completion_pending [OF h k n q]
  have a: "fst (clear 0 ?s) = Inr ()" and b: "\<not> resolved (snd (clear 0 ?s)) 0"
    using T by blast+
  have h': "history ?es (snd (clear 0 ?s))"
    by (simp add: eval_defs)
  have e: "Run 0 \<notin> set ?es \<and> RunTimer 0 \<notin> set ?es" by simp
  have "\<forall>es'. history es' (snd (clear 0 ?s)) \<and> Run 0 \<notin> set es' \<and> RunTimer 0 \<notin> set es' \<longrightarrow>
        \<not> resolved (after es' (snd (clear 0 ?s))) 0"
    using T by blast
  then have f: "\<not> resolved (after ?es (snd (clear 0 ?s))) 0"
    using h' e by blast
  show ?thesis using h k n q a b h' f by blast
qed

end
